theory Spec2Isabelle
  imports Complex_Main "HOL-Library.AList" "HOL-Library.Sublist"
begin

section \<open>The downloader of \<^verbatim>\<open>src/main.py\<close>\<close>

text \<open>
  The program is a Tk application around the \<^verbatim>\<open>yt_dlp\<close> library. The model keeps the
  fields of \<^verbatim>\<open>DownloadApp\<close> that the methods read and write in one record and passes it
  through every method. What the program does not decide itself is a parameter: the
  identifier parser \<^verbatim>\<open>YoutubeIE.extract_id\<close>, the directory listing, the answer of
  \<^verbatim>\<open>extract_info\<close>, and the events of one engine call.

  Modelling decisions, each next to the code it stands for:
  \<^item> a Tk item id (\<^verbatim>\<open>I001\<close>, \<^verbatim>\<open>I002\<close>, ...) is the value of Tk's counter, a \<open>nat\<close>;
  \<^item> a Python \<^verbatim>\<open>dict\<close> is an association list in insertion order (\<open>AList.update\<close>
    overwrites in place or appends, as assignment to a dict key does);
  \<^item> a progress text is always written by the program itself (\<^verbatim>\<open>"0%"\<close>,
    \<^verbatim>\<open>"100%"\<close>, \<^verbatim>\<open>f"{x:.1f}%"\<close>); the model carries the number the text denotes, as an
    exact rational, so \<^verbatim>\<open>float(progress.strip("%"))\<close> is the identity on it;
  \<^item> \<^verbatim>\<open>self.after(0, f)\<close> appends \<open>f\<close> to a queue that the Tk main loop runs in
    order;
  \<^item> an exception is a value; \<^verbatim>\<open>except Exception\<close> is a case distinction.
\<close>

type_synonym path = string
type_synonym item_id = nat

definition OUTPUT_DIR :: path where
  "OUTPUT_DIR = ''downloads''"

definition MAX_WORKERS :: nat where
  "MAX_WORKERS = 4"

subsection \<open>\<^verbatim>\<open>find_existing_path\<close>\<close>

text \<open>
  \<^verbatim>\<open>Path.glob\<close> matches the names of a directory's entries against a shell pattern.
  \<open>fnmatch pat name\<close> is that match for patterns made of literal characters,
  \<^verbatim>\<open>*\<close> and \<^verbatim>\<open>?\<close> (bracket classes are not modelled; the theorems about the locator
  ask for an identifier without \<^verbatim>\<open>*\<close>, \<^verbatim>\<open>?\<close> and \<^verbatim>\<open>[\<close>, which is what a YouTube id is).
  Characters are compared as they are, as on a file system that distinguishes case.
\<close>

fun fnmatch :: "string \<Rightarrow> string \<Rightarrow> bool" where
  "fnmatch [] [] = True"
| "fnmatch [] (c # cs) = False"
| "fnmatch (p # ps) [] = (p = CHR ''*'' \<and> fnmatch ps [])"
| "fnmatch (p # ps) (c # cs) =
     (if p = CHR ''*'' then fnmatch ps (c # cs) \<or> fnmatch (p # ps) cs
      else (p = CHR ''?'' \<or> p = c) \<and> fnmatch ps cs)"

text \<open>
  \<open>extract_id url = None\<close> stands for \<^verbatim>\<open>YoutubeIE.extract_id\<close> raising; \<open>listdir d\<close>
  is the names of the entries of directory \<open>d\<close> in the order the scan yields them
  (empty when \<open>d\<close> does not exist). The returned path is \<^verbatim>\<open>dest_dir / name\<close>.
\<close>

definition find_existing_path ::
  "(string \<Rightarrow> string option) \<Rightarrow> (path \<Rightarrow> string list) \<Rightarrow> string \<Rightarrow> path \<Rightarrow> path option" where
  "find_existing_path extract_id listdir url dest_dir =
     (case extract_id url of
        None \<Rightarrow> None
      | Some video_id \<Rightarrow>
          (case filter (fnmatch (video_id @ '' - *.mp3'')) (listdir dest_dir) of
             [] \<Rightarrow> None
           | name # _ \<Rightarrow> Some (dest_dir @ ''/'' @ name)))"

subsection \<open>The application state\<close>

text \<open>One row of the \<^verbatim>\<open>Treeview\<close>: the six columns of \<^verbatim>\<open>_build_ui\<close>.\<close>

record row =
  col_title :: string
  col_url :: string
  col_progress :: rat
  col_status :: string
  col_show :: string
  col_retry :: string

text \<open>The functions handed to \<^verbatim>\<open>self.after(0, ...)\<close>.\<close>

datatype callback =
    Update item_id "string option" "rat option" "string option"
  | Remove_placeholder item_id
  | Add_row string string
  | Btn_normal

text \<open>
  \<open>engine_calls\<close> is not a field of the program: it records each call of
  \<^verbatim>\<open>ydl.extract_info(url, download=True)\<close> with the archive file it was configured with,
  so that "the engine was not invoked" is a statement about the state.
\<close>

record app =
  download_dir :: path
  item_paths :: "(item_id \<times> path option) list"
  item_progress :: "(item_id \<times> rat) list"
  cancelled :: bool
  tree :: "(item_id \<times> row) list"
  tree_counter :: nat
  status_var :: string
  global_progress :: rat
  download_btn :: string
  after_queue :: "callback list"
  engine_calls :: "(string \<times> path) list"

definition init_app :: app where
  "init_app = \<lparr>download_dir = OUTPUT_DIR, item_paths = [], item_progress = [],
     cancelled = False, tree = [], tree_counter = 0, status_var = ''Idle'',
     global_progress = 0, download_btn = ''normal'', after_queue = [], engine_calls = []\<rparr>"

definition add_row :: "string \<Rightarrow> string \<Rightarrow> rat \<Rightarrow> string \<Rightarrow> app \<Rightarrow> item_id \<times> app" where
  "add_row title url progress status s =
     (let item_id = Suc (tree_counter s) in
      (item_id,
       s\<lparr>tree := tree s @ [(item_id, \<lparr>col_title = title, col_url = url,
             col_progress = progress, col_status = status,
             col_show = ''Show'', col_retry = ''Retry''\<rparr>)],
         tree_counter := item_id,
         item_paths := AList.update item_id None (item_paths s),
         item_progress := AList.update item_id progress (item_progress s)\<rparr>))"

definition remove_selected :: "item_id list \<Rightarrow> app \<Rightarrow> app" where
  "remove_selected selection s =
     fold (\<lambda>item s. s\<lparr>item_paths := AList.delete item (item_paths s),
                       item_progress := AList.delete item (item_progress s),
                       tree := AList.delete item (tree s)\<rparr>) selection s"

definition update_global_progress :: "app \<Rightarrow> app" where
  "update_global_progress s =
     (if item_progress s = [] then s\<lparr>global_progress := 0\<rparr>
      else s\<lparr>global_progress :=
             sum_list (map snd (item_progress s)) / of_nat (length (item_progress s))\<rparr>)"

text \<open>
  The closure \<^verbatim>\<open>update\<close> of \<^verbatim>\<open>_update_row\<close>. \<^verbatim>\<open>self.tree.item(item_id, "values")\<close>
  raises for an item that is no longer in the tree; Tk reports an exception of a callback
  and goes on, so nothing changes.
\<close>

definition update :: "item_id \<Rightarrow> string option \<Rightarrow> rat option \<Rightarrow> string option \<Rightarrow> app \<Rightarrow> app" where
  "update item_id title progress status s =
     (case map_of (tree s) item_id of
        None \<Rightarrow> s
      | Some current \<Rightarrow>
          (let c1 = (case title of None \<Rightarrow> current | Some t \<Rightarrow> current\<lparr>col_title := t\<rparr>);
               c2 = (case progress of None \<Rightarrow> c1 | Some p \<Rightarrow> c1\<lparr>col_progress := p\<rparr>);
               s2 = (case progress of None \<Rightarrow> s
                     | Some p \<Rightarrow> s\<lparr>item_progress := AList.update item_id p (item_progress s)\<rparr>);
               c3 = (case status of None \<Rightarrow> c2
                     | Some st \<Rightarrow>
                         (if prefix ''error'' st then c2\<lparr>col_status := st, col_retry := ''Retry''\<rparr>
                          else c2\<lparr>col_status := st\<rparr>))
           in update_global_progress (s2\<lparr>tree := AList.update item_id c3 (tree s2)\<rparr>)))"

definition update_row :: "item_id \<Rightarrow> string option \<Rightarrow> rat option \<Rightarrow> string option \<Rightarrow> app \<Rightarrow> app" where
  "update_row item_id title progress status s =
     s\<lparr>after_queue := after_queue s @ [Update item_id title progress status]\<rparr>"

definition set_item_path :: "item_id \<Rightarrow> path \<Rightarrow> app \<Rightarrow> app" where
  "set_item_path item_id p s = s\<lparr>item_paths := AList.update item_id (Some p) (item_paths s)\<rparr>"

text \<open>
  Running one queued function. \<^verbatim>\<open>remove_placeholder\<close> starts with
  \<^verbatim>\<open>self.tree.delete(item_id)\<close>, which raises for an absent item before the two
  \<^verbatim>\<open>pop\<close>s.
\<close>

fun run_callback :: "callback \<Rightarrow> app \<Rightarrow> app" where
  "run_callback (Update item_id title progress status) s = update item_id title progress status s"
| "run_callback (Remove_placeholder item_id) s =
     (case map_of (tree s) item_id of
        None \<Rightarrow> s
      | Some _ \<Rightarrow> s\<lparr>tree := AList.delete item_id (tree s),
                    item_paths := AList.delete item_id (item_paths s),
                    item_progress := AList.delete item_id (item_progress s)\<rparr>)"
| "run_callback (Add_row t u) s = snd (add_row t u 0 ''pending'' s)"
| "run_callback Btn_normal s = s\<lparr>download_btn := ''normal''\<rparr>"

text \<open>The main loop runs everything that is queued, in order.\<close>

definition mainloop :: "app \<Rightarrow> app" where
  "mainloop s = fold run_callback (after_queue s) (s\<lparr>after_queue := []\<rparr>)"

subsection \<open>\<^verbatim>\<open>_process_url\<close>\<close>

text \<open>
  What \<^verbatim>\<open>ydl.extract_info(url, download=False)\<close> answers: the keys of the \<^verbatim>\<open>info\<close>
  dictionary and of each entry that the method reads; \<open>None\<close> is an absent key (or the
  value \<^verbatim>\<open>None\<close>).
\<close>

record entry =
  e_url :: "string option"
  e_id :: "string option"
  e_title :: "string option"

record info =
  i_type :: "string option"
  i_entries :: "entry list option"
  i_title :: "string option"

datatype py_exception = DownloadCancelled string | Other_exception string

fun exc_str :: "py_exception \<Rightarrow> string" where
  "exc_str (DownloadCancelled msg) = msg"
| "exc_str (Other_exception msg) = msg"

text \<open>Python's \<^verbatim>\<open>a or b\<close> on optional strings: \<^verbatim>\<open>None\<close> and \<^verbatim>\<open>""\<close> are false.\<close>

definition str_or :: "string option \<Rightarrow> string option \<Rightarrow> string option" where
  "str_or a b = (case a of None \<Rightarrow> b | Some x \<Rightarrow> if x = [] then b else Some x)"

text \<open>The loop over the entries of a playlist: the functions it queues, in order.\<close>

fun entry_rows :: "entry list \<Rightarrow> callback list" where
  "entry_rows [] = []"
| "entry_rows (e # es) =
     (case str_or (e_url e) (e_id e) of
        None \<Rightarrow> entry_rows es
      | Some entry_url \<Rightarrow>
          if entry_url = [] then entry_rows es
          else
            (let entry_url' = (if prefix ''http'' entry_url then entry_url
                               else ''https://www.youtube.com/watch?v='' @ entry_url);
                 title = (case str_or (e_title e) (Some entry_url') of
                            None \<Rightarrow> entry_url' | Some t \<Rightarrow> t)
             in Add_row title entry_url' # entry_rows es))"

text \<open>
  \<open>answer\<close> is what \<^verbatim>\<open>extract_info\<close> did: \<open>Inl exc\<close> when it raised, \<open>Inr None\<close> when it
  returned \<^verbatim>\<open>None\<close>, \<open>Inr (Some info)\<close> otherwise.
\<close>

definition process_url :: "item_id \<Rightarrow> string \<Rightarrow> py_exception + info option \<Rightarrow> app \<Rightarrow> app" where
  "process_url item_id url answer s =
     (case answer of
        Inl exc \<Rightarrow> update_row item_id (Some url) None None s
      | Inr None \<Rightarrow> update_row item_id (Some url) None None s
      | Inr (Some info) \<Rightarrow>
          if i_type info = Some ''playlist'' \<and> i_entries info \<noteq> None \<and> i_entries info \<noteq> Some []
          then s\<lparr>after_queue := after_queue s @
                   Remove_placeholder item_id #
                   entry_rows (case i_entries info of None \<Rightarrow> [] | Some es \<Rightarrow> es)\<rparr>
          else update_row item_id
                 (Some (case str_or (i_title info) (Some url) of None \<Rightarrow> url | Some t \<Rightarrow> t))
                 None None s)"

subsection \<open>Starting, cancelling\<close>

text \<open>
  \<^verbatim>\<open>start_downloads\<close> ends by starting the thread of \<^verbatim>\<open>_run_downloads\<close>; the second
  component is that thread's argument, \<open>None\<close> when the method returned at the message box.
\<close>

definition start_downloads :: "app \<Rightarrow> app \<times> item_id list option" where
  "start_downloads s =
     (let item_ids = map fst (tree s) in
      if item_ids = [] then (s, None)
      else
        (let s1 = fold (\<lambda>item_id. update_row item_id None (Some 0) (Some ''queued'')) item_ids s
         in (s1\<lparr>status_var := ''Starting downloads...'', global_progress := 0,
                cancelled := False, download_btn := ''disabled''\<rparr>,
             Some item_ids)))"

definition cancel_downloads :: "app \<Rightarrow> app" where
  "cancel_downloads s =
     s\<lparr>cancelled := True, status_var := ''Cancelling...'', download_btn := ''normal''\<rparr>"

text \<open>
  \<^verbatim>\<open>_run_downloads\<close> apart from the calls of \<^verbatim>\<open>_download_item\<close> that it submits to its
  executor: what the method writes before the executor block, and what it writes when
  every submitted call has returned (\<^verbatim>\<open>_notify_complete\<close> changes no field).
\<close>

definition run_downloads_begin :: "app \<Rightarrow> app" where
  "run_downloads_begin s = s\<lparr>status_var := ''Downloading...''\<rparr>"

definition run_downloads_end :: "app \<Rightarrow> app" where
  "run_downloads_end s =
     (s\<lparr>after_queue := after_queue s @ [Btn_normal]\<rparr>)\<lparr>status_var := ''Done''\<rparr>"

subsection \<open>\<^verbatim>\<open>_download_item\<close>\<close>

text \<open>
  The dictionary the engine passes to a progress hook: the four keys the hook reads.
  The byte counts are rationals, which covers the integers and the estimates.
\<close>

record hook_dict =
  h_status :: "string option"
  total_bytes :: "rat option"
  total_bytes_estimate :: "rat option"
  downloaded_bytes :: "rat option"

text \<open>
  The number that the format \<^verbatim>\<open>.1f\<close> writes: the nearest multiple of one tenth, a tie
  going to the even digit. (Python rounds the binary floating-point value; the model
  rounds the exact quotient.)
\<close>

definition fmt_1f :: "rat \<Rightarrow> rat" where
  "fmt_1f x =
     (let y = x * 10; f = \<lfloor>y\<rfloor>; r = y - of_int f
      in of_int (if r < 1 / 2 then f else if 1 / 2 < r then f + 1
                 else if even f then f else f + 1) / 10)"

text \<open>\<^verbatim>\<open>d.get("total_bytes") or d.get("total_bytes_estimate") or 1\<close>\<close>

definition hook_total :: "hook_dict \<Rightarrow> rat" where
  "hook_total d =
     (case total_bytes d of
        Some t \<Rightarrow> if t \<noteq> 0 then t
                  else (case total_bytes_estimate d of
                          Some e \<Rightarrow> if e \<noteq> 0 then e else 1 | None \<Rightarrow> 1)
      | None \<Rightarrow> (case total_bytes_estimate d of
                   Some e \<Rightarrow> if e \<noteq> 0 then e else 1 | None \<Rightarrow> 1))"

text \<open>\<open>Inl\<close> is the exception the hook raises.\<close>

definition progress_hook :: "item_id \<Rightarrow> hook_dict \<Rightarrow> app \<Rightarrow> py_exception + app" where
  "progress_hook item_id d s =
     (if cancelled s then Inl (DownloadCancelled ''User cancelled'')
      else if h_status d = Some ''downloading'' then
        (let total = hook_total d;
             downloaded = (case downloaded_bytes d of None \<Rightarrow> 0 | Some b \<Rightarrow> b);
             percent = downloaded / total
         in Inr (update_row item_id None (Some (fmt_1f (percent * 100))) (Some ''downloading'') s))
      else if h_status d = Some ''finished'' then
        Inr (update_row item_id None (Some 100) (Some ''postprocessing'') s)
      else if h_status d = Some ''error'' then
        Inr (update_row item_id None (Some 0) (Some ''error'') s)
      else Inr s)"

text \<open>
  One call of the engine, as the worker sees it. While \<^verbatim>\<open>extract_info\<close> runs, the engine
  calls the hook, and the user may press Cancel on the main thread: \<open>events\<close> lists both
  in the order they happen. An exception of the hook ends the call and reaches the
  worker (the engine re-raises \<^verbatim>\<open>DownloadCancelled\<close>). When every hook call returned,
  \<open>block_result\<close> is how the \<^verbatim>\<open>with\<close> block ends: \<open>Inr final_path\<close>, the value of
  \<^verbatim>\<open>Path(filename).with_suffix(".mp3")\<close>, or \<open>Inl exc\<close> for an exception of the
  constructor, of \<^verbatim>\<open>extract_info\<close>, of \<^verbatim>\<open>prepare_filename\<close> or of \<^verbatim>\<open>with_suffix\<close>.
  \<open>mkdir_raises\<close>: \<^verbatim>\<open>self.download_dir.mkdir\<close> stands before the \<^verbatim>\<open>try\<close>, so its exception
  leaves the method.
\<close>

datatype fetch_event = Hook hook_dict | Cancel_pressed

record fetch =
  mkdir_raises :: bool
  events :: "fetch_event list"
  block_result :: "py_exception + path"

fun extract_info :: "item_id \<Rightarrow> fetch_event list \<Rightarrow> py_exception + path \<Rightarrow> app
    \<Rightarrow> (py_exception + path) \<times> app" where
  "extract_info item_id [] res s = (res, s)"
| "extract_info item_id (Cancel_pressed # evs) res s =
     extract_info item_id evs res (cancel_downloads s)"
| "extract_info item_id (Hook d # evs) res s =
     (case progress_hook item_id d s of
        Inl exc \<Rightarrow> (Inl exc, s)
      | Inr s' \<Rightarrow> extract_info item_id evs res s')"

text \<open>
  The result is the state when the method ends, by \<^verbatim>\<open>return\<close> or by the exception of
  \<^verbatim>\<open>mkdir\<close>.
\<close>

definition download_item ::
  "(string \<Rightarrow> string option) \<Rightarrow> (path \<Rightarrow> string list) \<Rightarrow> fetch
     \<Rightarrow> item_id \<Rightarrow> string \<Rightarrow> path \<Rightarrow> app \<Rightarrow> app" where
  "download_item extract_id listdir f item_id url archive_file s =
     (case find_existing_path extract_id listdir url (download_dir s) of
        Some existing_path \<Rightarrow>
          update_row item_id None (Some 100) (Some ''skipped (exists)'')
            (set_item_path item_id existing_path s)
      | None \<Rightarrow>
          if cancelled s then update_row item_id None (Some 0) (Some ''cancelled'') s
          else if mkdir_raises f then s
          else
            (case extract_info item_id (events f) (block_result f)
                    (s\<lparr>engine_calls := engine_calls s @ [(url, archive_file)]\<rparr>) of
               (Inr final_path, s') \<Rightarrow>
                 update_row item_id None (Some 100) (Some ''done'')
                   (set_item_path item_id final_path s')
             | (Inl exc, s') \<Rightarrow>
                 update_row item_id None (Some 0) (Some (''error: '' @ exc_str exc)) s'))"

subsection \<open>\<^verbatim>\<open>_retry_item\<close>\<close>

text \<open>
  The method reads the row's URL (raising for an absent item: \<open>None\<close>), queues the
  update and starts a thread that runs \<^verbatim>\<open>_download_item\<close>; the second component is the
  thread's arguments.
\<close>

definition retry_item :: "item_id \<Rightarrow> app \<Rightarrow> (app \<times> item_id \<times> string \<times> path) option" where
  "retry_item item_id s =
     (case map_of (tree s) item_id of
        None \<Rightarrow> None
      | Some r \<Rightarrow>
          Some (update_row item_id None (Some 0) (Some ''queued'') s,
                item_id, col_url r, download_dir s @ ''/downloaded.txt''))"

text \<open>A retry whose thread runs to its end, the main loop running before and after.\<close>

definition retry_run ::
  "(string \<Rightarrow> string option) \<Rightarrow> (path \<Rightarrow> string list) \<Rightarrow> fetch \<Rightarrow> item_id \<Rightarrow> app \<Rightarrow> app option" where
  "retry_run extract_id listdir f item_id s =
     (case retry_item item_id s of
        None \<Rightarrow> None
      | Some (s1, i, url, archive_file) \<Rightarrow>
          Some (mainloop (download_item extract_id listdir f i url archive_file (mainloop s1))))"

subsection \<open>\<^verbatim>\<open>show_in_folder\<close>\<close>

text \<open>
  The method up to the call of \<^verbatim>\<open>_reveal_file\<close>, which changes no field. \<open>exists\<close> is
  \<^verbatim>\<open>Path.exists\<close>; a missing row makes \<^verbatim>\<open>self.tree.item\<close> raise.
\<close>

definition show_in_folder ::
  "(string \<Rightarrow> string option) \<Rightarrow> (path \<Rightarrow> string list) \<Rightarrow> (path \<Rightarrow> bool) \<Rightarrow> item_id \<Rightarrow> app \<Rightarrow> app" where
  "show_in_folder extract_id listdir exists item_id s =
     (let known = (case map_of (item_paths s) item_id of
                     Some (Some p) \<Rightarrow> exists p
                   | _ \<Rightarrow> False)
      in if known then s
         else
           (case map_of (tree s) item_id of
              None \<Rightarrow> s
            | Some r \<Rightarrow>
                (case find_existing_path extract_id listdir (col_url r) (download_dir s) of
                   None \<Rightarrow> s
                 | Some p \<Rightarrow> set_item_path item_id p s)))"

subsection \<open>The states the application reaches\<close>

text \<open>
  One rule for each thing that happens: the user's actions on the main thread, a resolver
  thread or a worker thread running its method, and the main loop running the next queued
  function. A thread is started with an item id that Tk has issued, so the id is at most
  the counter; the selection handed to \<^verbatim>\<open>remove_selected\<close> consists of rows of the tree.
\<close>

inductive reachable :: "app \<Rightarrow> bool" where
  r_init: "reachable init_app"
| r_add: "reachable s \<Longrightarrow> reachable (snd (add_row ''Resolving...'' url 0 ''pending'' s))"
| r_resolve: "reachable s \<Longrightarrow> item_id \<le> tree_counter s
     \<Longrightarrow> reachable (process_url item_id url answer s)"
| r_remove: "reachable s \<Longrightarrow> set selection \<subseteq> fst ` set (tree s)
     \<Longrightarrow> reachable (remove_selected selection s)"
| r_folder: "reachable s \<Longrightarrow> reachable (s\<lparr>download_dir := chosen\<rparr>)"
| r_start: "reachable s \<Longrightarrow> reachable (fst (start_downloads s))"
| r_cancel: "reachable s \<Longrightarrow> reachable (cancel_downloads s)"
| r_run_begin: "reachable s \<Longrightarrow> reachable (run_downloads_begin s)"
| r_run_end: "reachable s \<Longrightarrow> reachable (run_downloads_end s)"
| r_worker: "reachable s \<Longrightarrow> item_id \<le> tree_counter s
     \<Longrightarrow> reachable (download_item extract_id listdir f item_id url archive_file s)"
| r_retry: "reachable s \<Longrightarrow> retry_item item_id s = Some (s', args) \<Longrightarrow> reachable s'"
| r_show: "reachable s \<Longrightarrow> item_id \<le> tree_counter s
     \<Longrightarrow> reachable (show_in_folder extract_id listdir exists item_id s)"
| r_tick: "reachable s \<Longrightarrow> after_queue s = cb # q
     \<Longrightarrow> reachable (run_callback cb (s\<lparr>after_queue := q\<rparr>))"

subsection \<open>The threads that run \<^verbatim>\<open>_download_item\<close>\<close>

text \<open>
  \<^verbatim>\<open>_run_downloads\<close> creates an executor of its own,
  \<^verbatim>\<open>ThreadPoolExecutor(max_workers=MAX_WORKERS)\<close>, and submits one call of
  \<^verbatim>\<open>_download_item\<close> for each item of the batch; \<^verbatim>\<open>_retry_item\<close> starts
  \<^verbatim>\<open>threading.Thread(target=self._download_item, ...)\<close>. The state of the threads is, for
  each executor, the submitted items that wait and the items whose call runs, and the items
  whose retry thread runs. An executor takes up its next waiting item when fewer than
  \<open>MAX_WORKERS\<close> of its calls run (that is what \<^verbatim>\<open>max_workers\<close> means); a thread that is
  started runs at once. A row is in \<^verbatim>\<open>downloading\<close> or \<^verbatim>\<open>postprocessing\<close> only while a
  call of \<^verbatim>\<open>_download_item\<close> for it runs, since only the hook of that call writes these.
\<close>

record pool =
  waiting :: "item_id list"
  running :: "item_id list"

record threads =
  executors :: "pool list"
  retry_threads :: "item_id list"

inductive scheduled :: "threads \<Rightarrow> bool" where
  t_init: "scheduled \<lparr>executors = [], retry_threads = []\<rparr>"
| t_run: "scheduled t
     \<Longrightarrow> scheduled (t\<lparr>executors := executors t @ [\<lparr>waiting = item_ids, running = []\<rparr>]\<rparr>)"
| t_take: "scheduled t \<Longrightarrow> k < length (executors t)
     \<Longrightarrow> waiting (executors t ! k) = item_id # rest
     \<Longrightarrow> length (running (executors t ! k)) < MAX_WORKERS
     \<Longrightarrow> scheduled (t\<lparr>executors := (executors t)
           [k := \<lparr>waiting = rest, running = running (executors t ! k) @ [item_id]\<rparr>]\<rparr>)"
| t_return: "scheduled t \<Longrightarrow> k < length (executors t)
     \<Longrightarrow> item_id \<in> set (running (executors t ! k))
     \<Longrightarrow> scheduled (t\<lparr>executors := (executors t)
           [k := (executors t ! k)\<lparr>running := remove1 item_id (running (executors t ! k))\<rparr>]\<rparr>)"
| t_retry: "scheduled t \<Longrightarrow> scheduled (t\<lparr>retry_threads := retry_threads t @ [item_id]\<rparr>)"
| t_retry_return: "scheduled t \<Longrightarrow> item_id \<in> set (retry_threads t)
     \<Longrightarrow> scheduled (t\<lparr>retry_threads := remove1 item_id (retry_threads t)\<rparr>)"

definition in_flight :: "threads \<Rightarrow> item_id list" where
  "in_flight t = concat (map running (executors t)) @ retry_threads t"

section \<open>What the specification says, in its words\<close>

text \<open>The unweighted arithmetic mean of the progress values, and 0 for no items.\<close>

definition spec_global_progress :: "rat list \<Rightarrow> rat" where
  "spec_global_progress ps = (if ps = [] then 0 else (\<Sum>p\<leftarrow>ps. p) / of_nat (length ps))"

text \<open>
  A file name of the shape \<^verbatim>\<open><id> - <title>.mp3\<close>: it begins with the identifier and
  \<^verbatim>\<open>" - "\<close>, and what follows ends with \<^verbatim>\<open>".mp3"\<close>.
\<close>

definition mp3_output_name :: "string \<Rightarrow> string \<Rightarrow> bool" where
  "mp3_output_name video_id name =
     (prefix (video_id @ '' - '') name \<and> suffix ''.mp3'' (drop (length video_id + 3) name))"

definition glob_literal :: "string \<Rightarrow> bool" where
  "glob_literal str = (CHR ''*'' \<notin> set str \<and> CHR ''?'' \<notin> set str \<and> CHR ''['' \<notin> set str)"

text \<open>
  The children of a collection: a child's reference is its url, or else its id; a
  shorthand (a reference that does not begin with \<^verbatim>\<open>http\<close>) is expanded to the full watch
  address; its title is the entry's title, or else the reference. A child with neither url
  nor id has no reference.
\<close>

definition child_reference :: "entry \<Rightarrow> string option" where
  "child_reference e =
     (if e_url e \<noteq> None \<and> e_url e \<noteq> Some [] then e_url e
      else if e_id e \<noteq> None \<and> e_id e \<noteq> Some [] then e_id e
      else None)"

definition full_reference :: "string \<Rightarrow> string" where
  "full_reference ref =
     (if take 4 ref = ''http'' then ref else ''https://www.youtube.com/watch?v='' @ ref)"

definition child_item :: "entry \<Rightarrow> (string \<times> string) option" where
  "child_item e =
     (case child_reference e of
        None \<Rightarrow> None
      | Some ref \<Rightarrow>
          Some (if e_title e \<noteq> None \<and> e_title e \<noteq> Some [] then the (e_title e)
                else full_reference ref,
                full_reference ref))"

definition pending_row :: "string \<Rightarrow> string \<Rightarrow> row" where
  "pending_row title url =
     \<lparr>col_title = title, col_url = url, col_progress = 0, col_status = ''pending'',
      col_show = ''Show'', col_retry = ''Retry''\<rparr>"

text \<open>The rows that Tk numbers from \<open>n\<close> on, one for each (title, reference).\<close>

fun rows_from :: "nat \<Rightarrow> (string \<times> string) list \<Rightarrow> (item_id \<times> row) list" where
  "rows_from n [] = []"
| "rows_from n ((t, u) # tus) = (n, pending_row t u) # rows_from (Suc n) tus"

text \<open>The answer of the resolution engine is a failure.\<close>

fun resolution_failed :: "py_exception + info option \<Rightarrow> bool" where
  "resolution_failed (Inl exc) = True"
| "resolution_failed (Inr None) = True"
| "resolution_failed (Inr (Some i)) = False"

text \<open>An output path has been recorded for the item.\<close>

definition has_path :: "app \<Rightarrow> item_id \<Rightarrow> bool" where
  "has_path s item_id = (\<exists>p. map_of (item_paths s) item_id = Some (Some p))"

definition done_or_skipped :: "string \<Rightarrow> bool" where
  "done_or_skipped st = (st = ''done'' \<or> st = ''skipped (exists)'')"

text \<open>
  Every row that shows Done or Skipped has its output path, and so has every row for which
  an update to Done or Skipped is queued.
\<close>

definition path_before_status :: "app \<Rightarrow> bool" where
  "path_before_status s =
     ((\<forall>i r. map_of (tree s) i = Some r \<longrightarrow> done_or_skipped (col_status r) \<longrightarrow> has_path s i) \<and>
      (\<forall>i t p st. Update i t p (Some st) \<in> set (after_queue s) \<longrightarrow> done_or_skipped st \<longrightarrow>
         map_of (tree s) i \<noteq> None \<longrightarrow> has_path s i))"

section \<open>Inputs for the examples\<close>

definition demo_url :: string where
  "demo_url = ''https://www.youtube.com/watch?v=dQw4w9WgXcQ''"

text \<open>An identifier parser that knows the watch addresses.\<close>

definition demo_extract_id :: "string \<Rightarrow> string option" where
  "demo_extract_id url =
     (if take 32 url = ''https://www.youtube.com/watch?v='' \<and> length url = 43
      then Some (drop 32 url) else None)"

definition empty_dir :: "path \<Rightarrow> string list" where
  "empty_dir d = []"

definition mp3_dir :: "path \<Rightarrow> string list" where
  "mp3_dir d = [''notes.txt'', ''dQw4w9WgXcQ - Song.mp3'']"

definition webm_dir :: "path \<Rightarrow> string list" where
  "webm_dir d = [''dQw4w9WgXcQ - Song.webm'']"

text \<open>One reference added and resolved to a title, then Download pressed.\<close>

definition demo_queued :: app where
  "demo_queued =
     mainloop (fst (start_downloads
       (mainloop (process_url 1 demo_url
          (Inr (Some \<lparr>i_type = None, i_entries = None, i_title = Some ''Song''\<rparr>))
          (snd (add_row ''Resolving...'' demo_url 0 ''pending'' init_app))))))"

definition downloading :: "rat \<Rightarrow> rat \<Rightarrow> hook_dict" where
  "downloading n m =
     \<lparr>h_status = Some ''downloading'', total_bytes = Some m,
      total_bytes_estimate = None, downloaded_bytes = Some n\<rparr>"

text \<open>A fetch that reports 40 of 100 bytes, then 50, then ends well; no Cancel.\<close>

definition good_fetch :: fetch where
  "good_fetch = \<lparr>mkdir_raises = False,
     events = [Hook (downloading 40 100), Hook (downloading 50 100)],
     block_result = Inr ''downloads/dQw4w9WgXcQ - Song.mp3''\<rparr>"

text \<open>The same fetch with Cancel pressed after the first report.\<close>

definition cancelled_fetch :: fetch where
  "cancelled_fetch = \<lparr>mkdir_raises = False,
     events = [Hook (downloading 40 100), Cancel_pressed, Hook (downloading 50 100)],
     block_result = Inr ''downloads/dQw4w9WgXcQ - Song.mp3''\<rparr>"

text \<open>A placeholder row for a playlist address, and three answers of the resolution engine.\<close>

definition demo_list_url :: string where
  "demo_list_url = ''https://www.youtube.com/playlist?list=PL1''"

definition demo_placeholder :: app where
  "demo_placeholder = snd (add_row ''Resolving...'' demo_list_url 0 ''pending'' init_app)"

definition demo_entries :: "entry list" where
  "demo_entries =
     [\<lparr>e_url = None, e_id = Some ''dQw4w9WgXcQ'', e_title = Some ''Song''\<rparr>,
      \<lparr>e_url = Some ''https://youtu.be/9bZkp7q19f0'', e_id = Some ''9bZkp7q19f0'',
       e_title = Some ''Dance''\<rparr>]"

definition demo_playlist :: info where
  "demo_playlist = \<lparr>i_type = Some ''playlist'', i_entries = Some demo_entries,
     i_title = Some ''Mix''\<rparr>"

definition empty_playlist :: info where
  "empty_playlist = \<lparr>i_type = Some ''playlist'', i_entries = Some [], i_title = Some ''Mix''\<rparr>"

definition ragged_playlist :: info where
  "ragged_playlist = \<lparr>i_type = Some ''playlist'',
     i_entries = Some [\<lparr>e_url = None, e_id = None, e_title = Some ''Ghost''\<rparr>,
                       \<lparr>e_url = None, e_id = Some ''dQw4w9WgXcQ'', e_title = None\<rparr>],
     i_title = Some ''Mix''\<rparr>"

section \<open>Notions for the proofs\<close>

text \<open>An update that the progress hook of item \<open>i\<close> queues.\<close>

definition hook_update :: "item_id \<Rightarrow> callback \<Rightarrow> bool" where
  "hook_update i cb =
     (\<exists>p st. cb = Update i None (Some p) (Some st)
        \<and> (st = ''downloading'' \<or> st = ''postprocessing'' \<or> st = ''error''))"

text \<open>
  \<open>s'\<close> differs from \<open>s\<close> at most in the row of item \<open>i\<close>, in its progress value and in
  the global progress.
\<close>

definition same_but_row :: "item_id \<Rightarrow> app \<Rightarrow> app \<Rightarrow> bool" where
  "same_but_row i s s' =
     (item_paths s' = item_paths s \<and> engine_calls s' = engine_calls s
      \<and> cancelled s' = cancelled s \<and> after_queue s' = after_queue s
      \<and> tree_counter s' = tree_counter s
      \<and> map_of (tree s') i \<noteq> None
      \<and> (\<forall>v. AList.update i v (item_progress s') = AList.update i v (item_progress s))
      \<and> (\<forall>x. AList.update i x (tree s') = AList.update i x (tree s)))"

text \<open>
  Every id in the tree or in a queued update has been issued by Tk; with
  \<open>path_before_status\<close> this is the invariant of the reachable states. A queued function
  is harmless in \<open>s\<close> when queueing it keeps the invariant.
\<close>

definition ids_issued :: "app \<Rightarrow> bool" where
  "ids_issued s =
     ((\<forall>i r. map_of (tree s) i = Some r \<longrightarrow> i \<le> tree_counter s) \<and>
      (\<forall>i t p st. Update i t p st \<in> set (after_queue s) \<longrightarrow> i \<le> tree_counter s))"

definition registry_inv :: "app \<Rightarrow> bool" where
  "registry_inv s = (path_before_status s \<and> ids_issued s)"

definition harmless :: "app \<Rightarrow> callback \<Rightarrow> bool" where
  "harmless s cb =
     (\<forall>i t p st. cb = Update i t p st \<longrightarrow>
        i \<le> tree_counter s \<and>
        (\<forall>st'. st = Some st' \<longrightarrow> done_or_skipped st' \<longrightarrow> map_of (tree s) i \<noteq> None
           \<longrightarrow> has_path s i))"

text \<open>
  A batch of five items of which four are being fetched, and a retry of the fifth; the
  example item added and then found by the locator.
\<close>

definition demo_threads :: threads where
  "demo_threads = \<lparr>executors = [\<lparr>waiting = [5], running = [1, 2, 3, 4]\<rparr>], retry_threads = [5]\<rparr>"

definition demo_added :: app where
  "demo_added = snd (add_row ''Resolving...'' demo_url 0 ''pending'' init_app)"

definition demo_skipped :: app where
  "demo_skipped = mainloop (download_item demo_extract_id mp3_dir good_fetch 1 demo_url
       ''downloads/downloaded.txt'' demo_added)"

section \<open>Properties\<close>

subsection \<open>The main loop\<close>

lemma empty_queue_same: "after_queue s = [] \<Longrightarrow> s\<lparr>after_queue := []\<rparr> = s"
  by (cases s) simp

lemma mainloop_update_row:
  "after_queue s = [] \<Longrightarrow> mainloop (update_row i t p st s) = update i t p st s"
  by (simp add: mainloop_def update_row_def empty_queue_same)

lemma run_callback_engine_calls: "engine_calls (run_callback cb s) = engine_calls s"
  by (cases cb)
     (simp_all add: update_def Let_def update_global_progress_def add_row_def
        split: option.splits)

lemma fold_engine_calls: "engine_calls (fold run_callback cbs s) = engine_calls s"
  by (induction cbs arbitrary: s) (simp_all add: run_callback_engine_calls)

lemma mainloop_engine_calls: "engine_calls (mainloop s) = engine_calls s"
  by (simp add: mainloop_def fold_engine_calls)

subsection \<open>The example inputs, evaluated\<close>

lemma demo_queued_eq:
  "demo_queued =
     \<lparr>download_dir = ''downloads'', item_paths = [(1, None)], item_progress = [(1, 0)],
      cancelled = False,
      tree = [(1, \<lparr>col_title = ''Song'', col_url = demo_url, col_progress = 0,
                    col_status = ''queued'', col_show = ''Show'', col_retry = ''Retry''\<rparr>)],
      tree_counter = 1, status_var = ''Starting downloads...'', global_progress = 0,
      download_btn = ''disabled'', after_queue = [], engine_calls = []\<rparr>"
  by (simp add: demo_queued_def mainloop_def start_downloads_def process_url_def add_row_def
      init_app_def update_row_def update_def update_global_progress_def str_or_def
      OUTPUT_DIR_def Let_def)

lemma demo_id: "demo_extract_id demo_url = Some ''dQw4w9WgXcQ''"
  by (simp add: demo_extract_id_def demo_url_def)

lemma locate_empty: "find_existing_path demo_extract_id empty_dir demo_url d = None"
  by (simp add: find_existing_path_def demo_id empty_dir_def)

lemma locate_mp3:
  "find_existing_path demo_extract_id mp3_dir demo_url d = Some (d @ ''/dQw4w9WgXcQ - Song.mp3'')"
  by (simp add: find_existing_path_def demo_id mp3_dir_def)

subsection \<open>The progress aggregator\<close>

text \<open>
  Claim C6. The value that \<^verbatim>\<open>_update_global_progress\<close> stores is the unweighted
  arithmetic mean of the progress values of all tracked items (the entries of
  \<^verbatim>\<open>item_progress\<close>, whatever the status of their rows), and 0 when no item is tracked.
\<close>

theorem global_progress_is_mean:
  "global_progress (update_global_progress s) = spec_global_progress (map snd (item_progress s))"
  by (simp add: update_global_progress_def spec_global_progress_def)

subsection \<open>Cancellation before the fetch\<close>

text \<open>
  Claim C8. When the worker takes up an item (in particular a Queued one) for which the
  locator finds nothing, and cancellation has been requested, the item's row goes to
  \<^verbatim>\<open>cancelled\<close> (with progress 0) and the engine is not called, whatever the engine
  would have done.
\<close>

theorem queued_cancelled_never_fetched:
  assumes "find_existing_path extract_id listdir url (download_dir s) = None"
    and "cancelled s"
  shows "download_item extract_id listdir f item_id url archive_file s
           = update_row item_id None (Some 0) (Some ''cancelled'') s
       \<and> engine_calls (mainloop (download_item extract_id listdir f item_id url archive_file s))
           = engine_calls s
       \<and> (after_queue s = [] \<and> map_of (tree s) item_id = Some r \<longrightarrow>
            map_of (tree (mainloop (download_item extract_id listdir f item_id url archive_file s)))
                item_id
              = Some (r\<lparr>col_progress := 0, col_status := ''cancelled''\<rparr>))"
proof -
  have d: "download_item extract_id listdir f item_id url archive_file s
           = update_row item_id None (Some 0) (Some ''cancelled'') s"
    using assms by (simp add: download_item_def)
  have e: "engine_calls (mainloop s') = engine_calls s'" for s'
    by (rule mainloop_engine_calls)
  have r: "after_queue s = [] \<and> map_of (tree s) item_id = Some r \<longrightarrow>
            map_of (tree (mainloop (update_row item_id None (Some 0) (Some ''cancelled'') s)))
                item_id
              = Some (r\<lparr>col_progress := 0, col_status := ''cancelled''\<rparr>)"
    by (simp add: mainloop_update_row update_def Let_def update_global_progress_def update_conv')
  show ?thesis
    using r by (simp add: d e update_row_def)
qed

text \<open>The queued example item, after Cancel, with a fetch that would have ended well.\<close>

theorem queued_cancelled_never_fetched_witness:
  "find_existing_path demo_extract_id empty_dir demo_url
       (download_dir (cancel_downloads demo_queued)) = None
   \<and> cancelled (cancel_downloads demo_queued)
   \<and> after_queue (cancel_downloads demo_queued) = []
   \<and> map_of (tree (cancel_downloads demo_queued)) 1
        = Some (pending_row ''Song'' demo_url\<lparr>col_status := ''queued''\<rparr>)
   \<and> map_of (tree (mainloop (download_item demo_extract_id empty_dir good_fetch 1 demo_url
          ''downloads/downloaded.txt'' (cancel_downloads demo_queued)))) 1
        = Some (pending_row ''Song'' demo_url\<lparr>col_status := ''cancelled''\<rparr>)
   \<and> engine_calls (mainloop (download_item demo_extract_id empty_dir good_fetch 1 demo_url
          ''downloads/downloaded.txt'' (cancel_downloads demo_queued))) = []"
  using queued_cancelled_never_fetched [of demo_extract_id empty_dir demo_url
      "cancel_downloads demo_queued" good_fetch 1 "''downloads/downloaded.txt''"
      "pending_row ''Song'' demo_url\<lparr>col_status := ''queued''\<rparr>"]
  by (simp add: locate_empty demo_queued_eq cancel_downloads_def pending_row_def
      download_item_def mainloop_def update_row_def update_def Let_def
      update_global_progress_def)

subsection \<open>The resolver\<close>

lemma mainloop_queue:
  "after_queue s = []
   \<Longrightarrow> mainloop (s\<lparr>after_queue := after_queue s @ cbs\<rparr>) = fold run_callback cbs s"
  by (simp add: mainloop_def empty_queue_same)

lemma demo_placeholder_eq:
  "demo_placeholder =
     init_app\<lparr>tree := [(1, pending_row ''Resolving...'' demo_list_url)],
       tree_counter := 1, item_paths := [(1, None)], item_progress := [(1, 0)]\<rparr>"
  by (simp add: demo_placeholder_def add_row_def init_app_def pending_row_def)

text \<open>
  Claim C7. When the resolution fails (the engine raises, or answers \<^verbatim>\<open>None\<close>), the
  method returns a state (no exception leaves it), and once the main loop has run the row
  of the item has the raw reference as its title and is otherwise as it was: the same rows
  are in the tree, with the same references, paths and progress values. The item is in the
  batch of the next \<^verbatim>\<open>start_downloads\<close>.
\<close>

theorem failed_resolution_keeps_item:
  assumes "resolution_failed answer"
    and "after_queue s = []"
    and "map_of (tree s) item_id = Some r"
  shows "tree (mainloop (process_url item_id url answer s))
           = AList.update item_id (r\<lparr>col_title := url\<rparr>) (tree s)
       \<and> item_paths (mainloop (process_url item_id url answer s)) = item_paths s
       \<and> item_progress (mainloop (process_url item_id url answer s)) = item_progress s
       \<and> snd (start_downloads (mainloop (process_url item_id url answer s)))
           = Some (map fst (tree s))
       \<and> item_id \<in> set (map fst (tree s))"
proof -
  have p: "process_url item_id url answer s = update_row item_id (Some url) None None s"
    using assms(1) by (cases answer rule: resolution_failed.cases) (simp_all add: process_url_def)
  have m: "mainloop (process_url item_id url answer s) = update item_id (Some url) None None s"
    by (simp add: p mainloop_update_row assms(2))
  have mem: "item_id \<in> fst ` set (tree s)"
    using assms(3) by (metis map_of_eq_None_iff option.distinct(1))
  have ne: "tree s \<noteq> []"
    using assms(3) by auto
  show ?thesis
    using assms(3) mem ne
    by (simp add: m update_def update_global_progress_def start_downloads_def Let_def update_keys)
qed

text \<open>The placeholder of the example, with the engine raising.\<close>

theorem failed_resolution_keeps_item_witness:
  "resolution_failed (Inl (Other_exception ''network unreachable''))
   \<and> after_queue demo_placeholder = []
   \<and> map_of (tree demo_placeholder) 1 = Some (pending_row ''Resolving...'' demo_list_url)
   \<and> tree (mainloop (process_url 1 demo_list_url
        (Inl (Other_exception ''network unreachable'')) demo_placeholder))
       = [(1, pending_row demo_list_url demo_list_url)]
   \<and> snd (start_downloads (mainloop (process_url 1 demo_list_url
        (Inl (Other_exception ''network unreachable'')) demo_placeholder))) = Some [1]"
  using failed_resolution_keeps_item [of "Inl (Other_exception ''network unreachable'')"
      demo_placeholder 1 "pending_row ''Resolving...'' demo_list_url" demo_list_url]
  by (simp add: demo_placeholder_eq init_app_def pending_row_def)

text \<open>The loop over the entries queues one row for each child that has a reference.\<close>

lemma prefix_take: "prefix xs ys = (take (length xs) ys = xs)"
  by (metis append_eq_conv_conj prefix_def take_is_prefix)

lemma starts_http: "prefix ''http'' a = (take 4 a = ''http'')"
  using prefix_take [of "''http''" a] by (simp add: eval_nat_numeral)

lemma entry_rows_children:
  "entry_rows es = map (\<lambda>(t, u). Add_row t u) (List.map_filter child_item es)"
proof (induction es)
  case Nil
  show ?case by simp
next
  case (Cons e es)
  show ?case
    by (cases "e_url e"; cases "e_id e"; cases "e_title e")
       (auto simp: Cons child_item_def child_reference_def str_or_def Let_def
          full_reference_def starts_http)
qed

lemma fold_add_rows:
  "tree (fold run_callback (map (\<lambda>(t, u). Add_row t u) tus) s)
     = tree s @ rows_from (Suc (tree_counter s)) tus
   \<and> tree_counter (fold run_callback (map (\<lambda>(t, u). Add_row t u) tus) s)
     = tree_counter s + length tus"
proof (induction tus arbitrary: s)
  case Nil
  show ?case by simp
next
  case (Cons tu tus)
  obtain t u where tu: "tu = (t, u)" by (cases tu)
  show ?case
    by (simp add: tu Cons add_row_def Let_def pending_row_def)
qed

lemma rows_from_ids: "fst ` set (rows_from n tus) = {n ..< n + length tus}"
proof (induction tus arbitrary: n)
  case Nil
  show ?case by simp
next
  case (Cons tu tus)
  obtain t u where tu: "tu = (t, u)" by (cases tu)
  show ?case by (auto simp: tu Cons)
qed

lemma length_rows_from: "length (rows_from n tus) = length tus"
  by (induction n tus rule: rows_from.induct) simp_all

lemma map_filter_all: "\<forall>e\<in>set es. f e \<noteq> None \<Longrightarrow> length (List.map_filter f es) = length es"
  by (induction es) auto

lemma child_item_None: "(child_item e = None) = (child_reference e = None)"
  by (simp add: child_item_def split: option.splits)

text \<open>
  Claim C4, as the code has it. For a reference that resolves as a collection with at
  least one entry, the placeholder is removed and the tree gains, in order, one pending
  row for each entry that has a url or an id (exactly \<open>n\<close> rows when each of the \<open>n\<close>
  entries has one). The row's reference is the entry's url, or else its id, expanded to
  the full watch address when it does not begin with \<^verbatim>\<open>http\<close>; its title is the entry's
  title, or else that reference.
\<close>

theorem collection_replaced_by_children:
  assumes "i_type info = Some ''playlist''"
    and "i_entries info = Some es"
    and "es \<noteq> []"
    and "after_queue s = []"
    and "map_of (tree s) item_id = Some r"
    and "item_id \<le> tree_counter s"
  shows "tree (mainloop (process_url item_id url (Inr (Some info)) s))
           = AList.delete item_id (tree s)
             @ rows_from (Suc (tree_counter s)) (List.map_filter child_item es)
       \<and> item_id \<notin> fst ` set (tree (mainloop (process_url item_id url (Inr (Some info)) s)))
       \<and> ((\<forall>e\<in>set es. child_reference e \<noteq> None) \<longrightarrow>
            length (rows_from (Suc (tree_counter s)) (List.map_filter child_item es))
              = length es)"
proof -
  let ?s' = "mainloop (process_url item_id url (Inr (Some info)) s)"
  let ?s1 = "s\<lparr>tree := AList.delete item_id (tree s),
               item_paths := AList.delete item_id (item_paths s),
               item_progress := AList.delete item_id (item_progress s)\<rparr>"
  let ?children = "List.map_filter child_item es"
  have p: "process_url item_id url (Inr (Some info)) s
             = s\<lparr>after_queue := after_queue s @ Remove_placeholder item_id # entry_rows es\<rparr>"
    using assms(1-3) by (simp add: process_url_def)
  have "?s' = fold run_callback (Remove_placeholder item_id # entry_rows es) s"
    by (simp only: p mainloop_queue [OF assms(4)])
  also have "\<dots> = fold run_callback (map (\<lambda>(t, u). Add_row t u) ?children) ?s1"
    using assms(5) by (simp add: entry_rows_children)
  finally have m: "?s' = fold run_callback (map (\<lambda>(t, u). Add_row t u) ?children) ?s1" .
  have t: "tree ?s' = AList.delete item_id (tree s) @ rows_from (Suc (tree_counter s)) ?children"
    using fold_add_rows [of ?children ?s1] by (simp add: m)
  have "item_id \<notin> fst ` set (rows_from (Suc (tree_counter s)) ?children)"
    using assms(6) by (simp add: rows_from_ids)
  moreover have "item_id \<notin> fst ` set (AList.delete item_id (tree s))"
    by (auto simp: AList.delete_eq)
  ultimately have a: "item_id \<notin> fst ` set (tree ?s')"
    by (simp add: t image_Un)
  have l: "(\<forall>e\<in>set es. child_reference e \<noteq> None) \<longrightarrow>
            length (rows_from (Suc (tree_counter s)) ?children) = length es"
    by (simp add: length_rows_from map_filter_all child_item_None)
  show ?thesis using t a l by blast
qed

text \<open>A playlist of two entries, one given by its id and one by its address.\<close>

theorem collection_replaced_by_children_witness:
  "i_type demo_playlist = Some ''playlist''
   \<and> i_entries demo_playlist = Some demo_entries
   \<and> demo_entries \<noteq> []
   \<and> after_queue demo_placeholder = []
   \<and> map_of (tree demo_placeholder) 1 = Some (pending_row ''Resolving...'' demo_list_url)
   \<and> 1 \<le> tree_counter demo_placeholder
   \<and> tree (mainloop (process_url 1 demo_list_url (Inr (Some demo_playlist)) demo_placeholder))
      = [(2, pending_row ''Song'' ''https://www.youtube.com/watch?v=dQw4w9WgXcQ''),
         (3, pending_row ''Dance'' ''https://youtu.be/9bZkp7q19f0'')]"
  using collection_replaced_by_children [of demo_playlist demo_entries demo_placeholder 1
      "pending_row ''Resolving...'' demo_list_url" demo_list_url]
  by (simp add: demo_playlist_def demo_entries_def demo_placeholder_eq init_app_def
      child_item_def child_reference_def full_reference_def)

text \<open>
  The claim as it is written fails in two ways. A collection with no entry leaves the
  placeholder in the tree (the test \<^verbatim>\<open>info.get("entries")\<close> is false for the empty list).
  A collection of two entries, the first with neither url nor id and the second with no
  title, gives one row, whose title is its reference.
\<close>

theorem collection_children_counterexample:
  "map fst (tree (mainloop (process_url 1 demo_list_url (Inr (Some empty_playlist))
       demo_placeholder))) = [1]
   \<and> tree (mainloop (process_url 1 demo_list_url (Inr (Some ragged_playlist))
       demo_placeholder))
       = [(2, pending_row ''https://www.youtube.com/watch?v=dQw4w9WgXcQ''
                          ''https://www.youtube.com/watch?v=dQw4w9WgXcQ'')]"
  by (simp add: demo_placeholder_eq mainloop_def process_url_def empty_playlist_def
      ragged_playlist_def init_app_def update_row_def update_def update_global_progress_def
      str_or_def Let_def pending_row_def add_row_def)

subsection \<open>The locator\<close>

lemma fnmatch_literal: "glob_literal lit \<Longrightarrow> fnmatch lit n = (n = lit)"
proof (induction lit arbitrary: n)
  case Nil
  show ?case by (cases n) simp_all
next
  case (Cons p ps)
  then have "glob_literal ps" "p \<noteq> CHR ''*''" "p \<noteq> CHR ''?''"
    by (auto simp: glob_literal_def)
  with Cons.IH show ?case by (cases n) auto
qed

lemma fnmatch_literal_prefix:
  "glob_literal lit
   \<Longrightarrow> fnmatch (lit @ ps) n = (prefix lit n \<and> fnmatch ps (drop (length lit) n))"
proof (induction lit arbitrary: n)
  case Nil
  show ?case by simp
next
  case (Cons p lit)
  then have "glob_literal lit" "p \<noteq> CHR ''*''" "p \<noteq> CHR ''?''"
    by (auto simp: glob_literal_def)
  with Cons.IH show ?case by (cases n) auto
qed

lemma fnmatch_star_literal:
  "glob_literal lit \<Longrightarrow> fnmatch (CHR ''*'' # lit) n = suffix lit n"
proof (induction n)
  case Nil
  then show ?case by (auto simp: fnmatch_literal)
next
  case (Cons c cs)
  then show ?case by (auto simp: fnmatch_literal suffix_Cons)
qed

lemma pattern_shape:
  assumes "glob_literal video_id"
  shows "fnmatch (video_id @ '' - *.mp3'') name = mp3_output_name video_id name"
proof -
  have l: "glob_literal (video_id @ '' - '')" "glob_literal ''.mp3''"
    using assms by (simp_all add: glob_literal_def)
  have "video_id @ '' - *.mp3'' = (video_id @ '' - '') @ CHR ''*'' # ''.mp3''"
    by simp
  then have "fnmatch (video_id @ '' - *.mp3'') name
      = (prefix (video_id @ '' - '') name
         \<and> fnmatch (CHR ''*'' # ''.mp3'') (drop (length (video_id @ '' - '')) name))"
    using fnmatch_literal_prefix [OF l(1)] by simp
  then show ?thesis
    by (simp add: fnmatch_star_literal [OF l(2)] mp3_output_name_def numeral_3_eq_3)
qed

lemma first_of_filter:
  "(case filter P xs of [] \<Rightarrow> None | x # _ \<Rightarrow> Some (f x)) = map_option f (List.find P xs)"
  by (induction xs) simp_all

text \<open>
  Claim C3, as the code has it. For a reference whose identifier can be derived, the
  locator returns the first entry of the directory, in scan order, whose name begins with
  \<^verbatim>\<open><id> - \<close> and ends with \<^verbatim>\<open>.mp3\<close>, and nothing when no entry has that shape.
\<close>

theorem locator_finds_first_mp3:
  assumes "extract_id url = Some video_id"
    and "glob_literal video_id"
  shows "find_existing_path extract_id listdir url dest_dir
           = map_option (\<lambda>name. dest_dir @ ''/'' @ name)
               (List.find (mp3_output_name video_id) (listdir dest_dir))"
proof -
  have "fnmatch (video_id @ '' - *.mp3'') = mp3_output_name video_id"
    using pattern_shape [OF assms(2)] by blast
  then show ?thesis
    by (simp add: find_existing_path_def assms(1) first_of_filter)
qed

text \<open>A directory with a text file and the output of an earlier run.\<close>

theorem locator_finds_first_mp3_witness:
  "demo_extract_id demo_url = Some ''dQw4w9WgXcQ''
   \<and> glob_literal ''dQw4w9WgXcQ''
   \<and> find_existing_path demo_extract_id mp3_dir demo_url ''downloads''
       = Some ''downloads/dQw4w9WgXcQ - Song.mp3''"
  using locator_finds_first_mp3 [of demo_extract_id demo_url "''dQw4w9WgXcQ''" mp3_dir
      "''downloads''"]
  by (simp add: demo_id glob_literal_def mp3_dir_def mp3_output_name_def suffix_to_prefix)

text \<open>
  The claim as it is written accepts any file with the prefix. A directory whose only
  entry is \<^verbatim>\<open>dQw4w9WgXcQ - Song.webm\<close> has such a file, and the locator finds nothing.
\<close>

theorem locator_other_extension_counterexample:
  "demo_extract_id demo_url = Some ''dQw4w9WgXcQ''
   \<and> webm_dir ''downloads'' = [''dQw4w9WgXcQ - Song.webm'']
   \<and> prefix ''dQw4w9WgXcQ - '' ''dQw4w9WgXcQ - Song.webm''
   \<and> find_existing_path demo_extract_id webm_dir demo_url ''downloads'' = None"
  by (simp add: demo_id webm_dir_def find_existing_path_def)

subsection \<open>One engine call\<close>

lemma hook_update_intros:
  "hook_update i (Update i None (Some p) (Some ''downloading''))"
  "hook_update i (Update i None (Some p) (Some ''postprocessing''))"
  "hook_update i (Update i None (Some p) (Some ''error''))"
  unfolding hook_update_def by blast+

lemma progress_hook_cases:
  "progress_hook i d s = Inl (DownloadCancelled ''User cancelled'') \<and> cancelled s
   \<or> progress_hook i d s = Inr s \<and> \<not> cancelled s
   \<or> (\<exists>cb. progress_hook i d s = Inr (s\<lparr>after_queue := after_queue s @ [cb]\<rparr>)
         \<and> hook_update i cb \<and> \<not> cancelled s)"
  unfolding progress_hook_def update_row_def Let_def
  using hook_update_intros [of i] by (simp only: split: if_splits) blast

lemma extract_info_frame:
  "tree (snd (extract_info i evs res s)) = tree s
   \<and> item_paths (snd (extract_info i evs res s)) = item_paths s
   \<and> item_progress (snd (extract_info i evs res s)) = item_progress s
   \<and> engine_calls (snd (extract_info i evs res s)) = engine_calls s
   \<and> tree_counter (snd (extract_info i evs res s)) = tree_counter s
   \<and> (\<exists>cbs. after_queue (snd (extract_info i evs res s)) = after_queue s @ cbs
         \<and> list_all (hook_update i) cbs)"
proof (induction i evs res s rule: extract_info.induct)
  case (1 item_id res s)
  show ?case by simp
next
  case (2 item_id evs res s)
  then show ?case by (simp add: cancel_downloads_def)
next
  case (3 item_id d evs res s)
  from progress_hook_cases [of item_id d s] show ?case
  proof (elim disjE conjE exE)
    assume "progress_hook item_id d s = Inl (DownloadCancelled ''User cancelled'')"
    then show ?thesis by simp
  next
    assume h: "progress_hook item_id d s = Inr s"
    with "3.IH" [of s] show ?thesis by simp
  next
    fix cb
    assume h: "progress_hook item_id d s = Inr (s\<lparr>after_queue := after_queue s @ [cb]\<rparr>)"
      and u: "hook_update item_id cb"
    from "3.IH" [OF h] obtain cbs where
      f: "tree (snd (extract_info item_id evs res (s\<lparr>after_queue := after_queue s @ [cb]\<rparr>))) = tree s"
         "item_paths (snd (extract_info item_id evs res (s\<lparr>after_queue := after_queue s @ [cb]\<rparr>))) = item_paths s"
         "item_progress (snd (extract_info item_id evs res (s\<lparr>after_queue := after_queue s @ [cb]\<rparr>))) = item_progress s"
         "engine_calls (snd (extract_info item_id evs res (s\<lparr>after_queue := after_queue s @ [cb]\<rparr>))) = engine_calls s"
         "tree_counter (snd (extract_info item_id evs res (s\<lparr>after_queue := after_queue s @ [cb]\<rparr>))) = tree_counter s"
         "after_queue (snd (extract_info item_id evs res (s\<lparr>after_queue := after_queue s @ [cb]\<rparr>))) = after_queue s @ [cb] @ cbs"
         "list_all (hook_update item_id) cbs"
      by auto
    have "list_all (hook_update item_id) ([cb] @ cbs)" using u f(7) by simp
    with f(1-6) show ?thesis by (simp add: h del: append.simps)
  qed
qed

lemma extract_info_cancelled:
  "cancelled s \<or> Cancel_pressed \<in> set evs_a
   \<Longrightarrow> fst (extract_info i (evs_a @ Hook d # evs_b) res s) = Inl (DownloadCancelled ''User cancelled'')
       \<and> cancelled (snd (extract_info i (evs_a @ Hook d # evs_b) res s))"
proof (induction i evs_a res s rule: extract_info.induct)
  case (1 item_id res s)
  then show ?case by (simp add: progress_hook_def)
next
  case (2 item_id evs res s)
  then show ?case by (simp add: cancel_downloads_def)
next
  case (3 item_id d' evs res s)
  from progress_hook_cases [of item_id d' s] show ?case
  proof (elim disjE conjE exE)
    assume "progress_hook item_id d' s = Inl (DownloadCancelled ''User cancelled'')" "cancelled s"
    then show ?thesis by simp
  next
    assume h: "progress_hook item_id d' s = Inr s" and c: "\<not> cancelled s"
    with "3.IH" [of s] "3.prems" show ?thesis by simp
  next
    fix cb
    assume h: "progress_hook item_id d' s = Inr (s\<lparr>after_queue := after_queue s @ [cb]\<rparr>)"
      and c: "\<not> cancelled s"
    with "3.IH" [OF h] "3.prems" show ?thesis by simp
  qed
qed

lemma extract_info_uncancelled:
  "\<not> cancelled s \<Longrightarrow> Cancel_pressed \<notin> set evs
   \<Longrightarrow> fst (extract_info i evs res s) = res \<and> \<not> cancelled (snd (extract_info i evs res s))"
proof (induction i evs res s rule: extract_info.induct)
  case (1 item_id res s)
  then show ?case by simp
next
  case (2 item_id evs res s)
  then show ?case by simp
next
  case (3 item_id d' evs res s)
  from progress_hook_cases [of item_id d' s] show ?case
  proof (elim disjE conjE exE)
    assume "cancelled s"
    with "3.prems" show ?thesis by simp
  next
    assume h: "progress_hook item_id d' s = Inr s"
    with "3.IH" [of s] "3.prems" show ?thesis by simp
  next
    fix cb
    assume h: "progress_hook item_id d' s = Inr (s\<lparr>after_queue := after_queue s @ [cb]\<rparr>)"
    with "3.IH" [OF h] "3.prems" show ?thesis by simp
  qed
qed

lemma update_same_but_row:
  assumes "map_of (tree s) i = Some r"
  shows "same_but_row i s (update i t (Some p) st s)"
  using assms
  by (simp add: same_but_row_def update_def Let_def update_global_progress_def update_conv'
      split: option.splits)

lemma same_but_row_trans:
  "same_but_row i s s1 \<Longrightarrow> same_but_row i s1 s2 \<Longrightarrow> same_but_row i s s2"
  by (simp add: same_but_row_def)

lemma same_but_row_refl: "map_of (tree s) i \<noteq> None \<Longrightarrow> same_but_row i s s"
  by (simp add: same_but_row_def)

lemma fold_hook_updates:
  "list_all (hook_update i) cbs \<Longrightarrow> map_of (tree s) i \<noteq> None
   \<Longrightarrow> same_but_row i s (fold run_callback cbs s)"
proof (induction cbs arbitrary: s)
  case Nil
  then show ?case by (simp add: same_but_row_refl)
next
  case (Cons cb cbs)
  from Cons.prems obtain r p st where cb: "cb = Update i None (Some p) (Some st)"
    and r: "map_of (tree s) i = Some r"
    by (auto simp: hook_update_def)
  have 1: "same_but_row i s (run_callback cb s)"
    using update_same_but_row [OF r] by (simp add: cb)
  then have "map_of (tree (run_callback cb s)) i \<noteq> None"
    by (simp add: same_but_row_def)
  with Cons have "same_but_row i (run_callback cb s) (fold run_callback cbs (run_callback cb s))"
    by simp
  with 1 show ?case
    using same_but_row_trans by fastforce
qed

lemma update_result:
  assumes "map_of (tree s) i = Some r"
  shows "item_progress (update i None (Some p) (Some st) s) = AList.update i p (item_progress s)"
    and "global_progress (update i None (Some p) (Some st) s)
           = spec_global_progress (map snd (AList.update i p (item_progress s)))"
    and "\<exists>r'. map_of (tree (update i None (Some p) (Some st) s)) i = Some r'
           \<and> col_progress r' = p \<and> col_status r' = st"
    and "item_paths (update i None (Some p) (Some st) s) = item_paths s"
    and "engine_calls (update i None (Some p) (Some st) s) = engine_calls s"
    and "cancelled (update i None (Some p) (Some st) s) = cancelled s"
  using assms
  by (simp_all add: update_def Let_def update_global_progress_def update_conv'
      spec_global_progress_def)

text \<open>The worker's last update, run after the updates of its hook.\<close>

lemma mainloop_worker:
  assumes q: "after_queue s' = cbs" and h: "list_all (hook_update i) cbs"
    and r: "map_of (tree s') i \<noteq> None"
  shows "item_progress (mainloop (update_row i None (Some p) (Some st) s'))
           = AList.update i p (item_progress s')"
    and "global_progress (mainloop (update_row i None (Some p) (Some st) s'))
           = spec_global_progress (map snd (AList.update i p (item_progress s')))"
    and "\<exists>r'. map_of (tree (mainloop (update_row i None (Some p) (Some st) s'))) i = Some r'
           \<and> col_progress r' = p \<and> col_status r' = st"
    and "item_paths (mainloop (update_row i None (Some p) (Some st) s')) = item_paths s'"
    and "engine_calls (mainloop (update_row i None (Some p) (Some st) s')) = engine_calls s'"
    and "cancelled (mainloop (update_row i None (Some p) (Some st) s')) = cancelled s'"
proof -
  let ?s0 = "s'\<lparr>after_queue := []\<rparr>"
  let ?s1 = "fold run_callback cbs ?s0"
  have m: "mainloop (update_row i None (Some p) (Some st) s') = update i None (Some p) (Some st) ?s1"
    by (simp add: mainloop_def update_row_def q)
  have "map_of (tree ?s0) i \<noteq> None" using r by simp
  from fold_hook_updates [OF h this] have sb: "same_but_row i ?s0 ?s1" .
  then obtain r1 where r1: "map_of (tree ?s1) i = Some r1"
    by (auto simp: same_but_row_def)
  note u = update_result [OF r1, of p st]
  from sb have ip: "AList.update i p (item_progress ?s1) = AList.update i p (item_progress s')"
    by (simp add: same_but_row_def)
  show "item_progress (mainloop (update_row i None (Some p) (Some st) s'))
           = AList.update i p (item_progress s')"
    using u(1) ip by (simp add: m)
  show "global_progress (mainloop (update_row i None (Some p) (Some st) s'))
           = spec_global_progress (map snd (AList.update i p (item_progress s')))"
    using u(2) ip by (simp add: m)
  show "\<exists>r'. map_of (tree (mainloop (update_row i None (Some p) (Some st) s'))) i = Some r'
           \<and> col_progress r' = p \<and> col_status r' = st"
    using u(3) by (simp add: m)
  show "item_paths (mainloop (update_row i None (Some p) (Some st) s')) = item_paths s'"
    using u(4) sb by (simp add: m same_but_row_def)
  show "engine_calls (mainloop (update_row i None (Some p) (Some st) s')) = engine_calls s'"
    using u(5) sb by (simp add: m same_but_row_def)
  show "cancelled (mainloop (update_row i None (Some p) (Some st) s')) = cancelled s'"
    using u(6) sb by (simp add: m same_but_row_def)
qed

lemma download_item_skip:
  "find_existing_path extract_id listdir url (download_dir s) = Some p
   \<Longrightarrow> download_item extract_id listdir f i url a s
       = update_row i None (Some 100) (Some ''skipped (exists)'') (set_item_path i p s)"
  by (simp add: download_item_def)

lemma download_item_fetch:
  "find_existing_path extract_id listdir url (download_dir s) = None
   \<Longrightarrow> \<not> cancelled s \<Longrightarrow> \<not> mkdir_raises f
   \<Longrightarrow> e = extract_info i (events f) (block_result f)
                 (s\<lparr>engine_calls := engine_calls s @ [(url, a)]\<rparr>)
   \<Longrightarrow> download_item extract_id listdir f i url a s
       = (case fst e of
            Inr final_path \<Rightarrow>
              update_row i None (Some 100) (Some ''done'') (set_item_path i final_path (snd e))
          | Inl exc \<Rightarrow>
              update_row i None (Some 0) (Some (''error: '' @ exc_str exc)) (snd e))"
  by (cases "extract_info i (events f) (block_result f) (s\<lparr>engine_calls := engine_calls s @ [(url, a)]\<rparr>)")
     (auto simp: download_item_def split: sum.splits)

lemma demo_queued_rows:
  "demo_queued =
     \<lparr>download_dir = ''downloads'', item_paths = [(1, None)], item_progress = [(1, 0)],
      cancelled = False,
      tree = [(1, pending_row ''Song'' demo_url\<lparr>col_status := ''queued''\<rparr>)],
      tree_counter = 1, status_var = ''Starting downloads...'', global_progress = 0,
      download_btn = ''disabled'', after_queue = [], engine_calls = []\<rparr>"
  by (simp add: demo_queued_eq pending_row_def)

lemma fmt_40: "fmt_1f 40 = 40"
  by (simp add: fmt_1f_def Let_def)

subsection \<open>The skip path\<close>

text \<open>
  Claim C10. When the locator finds an output for an item of the tree, the skip path
  sets the item's progress to 100 and the global progress becomes the mean with that 100 in
  it. A fetch of the same item that runs to its end without Cancel leaves the same
  progress values and the same global progress: a skipped item counts exactly as a
  completed one.
\<close>

theorem skipped_counts_as_completed:
  assumes "find_existing_path extract_id listdir url (download_dir s) = Some p"
    and "after_queue s = []"
    and "map_of (tree s) item_id = Some r"
    and "find_existing_path extract_id' listdir' url (download_dir s) = None"
    and "\<not> cancelled s"
    and "\<not> mkdir_raises f'"
    and "Cancel_pressed \<notin> set (events f')"
    and "block_result f' = Inr final_path"
  shows "map_of (item_progress (mainloop (download_item extract_id listdir f item_id url a s))) item_id
           = Some 100
       \<and> item_progress (mainloop (download_item extract_id listdir f item_id url a s))
           = AList.update item_id 100 (item_progress s)
       \<and> global_progress (mainloop (download_item extract_id listdir f item_id url a s))
           = spec_global_progress (map snd (AList.update item_id 100 (item_progress s)))
       \<and> item_progress (mainloop (download_item extract_id' listdir' f' item_id url a s))
           = item_progress (mainloop (download_item extract_id listdir f item_id url a s))
       \<and> global_progress (mainloop (download_item extract_id' listdir' f' item_id url a s))
           = global_progress (mainloop (download_item extract_id listdir f item_id url a s))"
proof -
  let ?skip = "mainloop (download_item extract_id listdir f item_id url a s)"
  let ?done = "mainloop (download_item extract_id' listdir' f' item_id url a s)"
  have sk: "?skip = update item_id None (Some 100) (Some ''skipped (exists)'') (set_item_path item_id p s)"
    using assms(2) by (simp add: download_item_skip [OF assms(1)] mainloop_update_row set_item_path_def)
  have r': "map_of (tree (set_item_path item_id p s)) item_id = Some r"
    using assms(3) by (simp add: set_item_path_def)
  note u = update_result [OF r', of 100 "''skipped (exists)''"]
  have s1: "item_progress ?skip = AList.update item_id 100 (item_progress s)"
    using u(1) by (simp add: sk set_item_path_def)
  have s2: "global_progress ?skip
           = spec_global_progress (map snd (AList.update item_id 100 (item_progress s)))"
    using u(2) by (simp add: sk set_item_path_def)
  let ?s0 = "s\<lparr>engine_calls := engine_calls s @ [(url, a)]\<rparr>"
  let ?e = "extract_info item_id (events f') (block_result f') ?s0"
  have nc: "\<not> cancelled ?s0" using assms(5) by simp
  have e1: "fst ?e = Inr final_path"
    using extract_info_uncancelled [OF nc assms(7), of item_id "block_result f'"] assms(8) by simp
  from extract_info_frame [of item_id "events f'" "block_result f'" ?s0]
  obtain cbs where fr: "tree (snd ?e) = tree s" "item_progress (snd ?e) = item_progress s"
      "after_queue (snd ?e) = cbs" "list_all (hook_update item_id) cbs"
    using assms(2) by auto
  have d: "download_item extract_id' listdir' f' item_id url a s
         = update_row item_id None (Some 100) (Some ''done'') (set_item_path item_id final_path (snd ?e))"
    by (simp add: download_item_fetch [OF assms(4,5,6) refl] e1)
  let ?s' = "set_item_path item_id final_path (snd ?e)"
  have q: "after_queue ?s' = cbs" using fr(3) by (simp add: set_item_path_def)
  have t: "map_of (tree ?s') item_id \<noteq> None" using fr(1) assms(3) by (simp add: set_item_path_def)
  note w = mainloop_worker [OF q fr(4) t, of 100 "''done''"]
  have d1: "item_progress ?done = AList.update item_id 100 (item_progress s)"
    using w(1) fr(2) by (simp add: d set_item_path_def)
  have d2: "global_progress ?done
      = spec_global_progress (map snd (AList.update item_id 100 (item_progress s)))"
    using w(2) fr(2) by (simp add: d set_item_path_def)
  show ?thesis
    by (simp add: s1 s2 d1 d2 update_conv')
qed

text \<open>The queued example item, skipped in one directory and fetched in an empty one.\<close>

theorem skipped_counts_as_completed_witness:
  "find_existing_path demo_extract_id mp3_dir demo_url (download_dir demo_queued)
       = Some ''downloads/dQw4w9WgXcQ - Song.mp3''
   \<and> after_queue demo_queued = []
   \<and> map_of (tree demo_queued) 1 = Some (pending_row ''Song'' demo_url\<lparr>col_status := ''queued''\<rparr>)
   \<and> find_existing_path demo_extract_id empty_dir demo_url (download_dir demo_queued) = None
   \<and> \<not> cancelled demo_queued
   \<and> \<not> mkdir_raises good_fetch
   \<and> Cancel_pressed \<notin> set (events good_fetch)
   \<and> block_result good_fetch = Inr ''downloads/dQw4w9WgXcQ - Song.mp3''
   \<and> item_progress (mainloop (download_item demo_extract_id mp3_dir good_fetch 1 demo_url
          ''downloads/downloaded.txt'' demo_queued)) = [(1, 100)]
   \<and> global_progress (mainloop (download_item demo_extract_id mp3_dir good_fetch 1 demo_url
          ''downloads/downloaded.txt'' demo_queued)) = 100
   \<and> item_progress (mainloop (download_item demo_extract_id empty_dir good_fetch 1 demo_url
          ''downloads/downloaded.txt'' demo_queued)) = [(1, 100)]
   \<and> global_progress (mainloop (download_item demo_extract_id empty_dir good_fetch 1 demo_url
          ''downloads/downloaded.txt'' demo_queued)) = 100"
  using skipped_counts_as_completed [of demo_extract_id mp3_dir demo_url demo_queued "''downloads/dQw4w9WgXcQ - Song.mp3''"
      1 "pending_row ''Song'' demo_url\<lparr>col_status := ''queued''\<rparr>" demo_extract_id empty_dir
      good_fetch "''downloads/dQw4w9WgXcQ - Song.mp3''" good_fetch "''downloads/downloaded.txt''"]
  by (simp add: locate_empty locate_mp3)
     (simp add: demo_queued_rows good_fetch_def spec_global_progress_def)

subsection \<open>Cancellation during the fetch\<close>

text \<open>
  Claim C1, as the code has it. When Cancel is pressed while the engine call of an item
  runs, the hook raises at the engine's next call of it and the fetch ends there: the
  item's row leaves the states of a running fetch and does not become Done, its progress
  is reset to 0 (it does not stay at \<open>p\<close>), no output path is recorded for it, and the
  flag stays set.
\<close>

theorem cancelled_fetch_resets_progress:
  assumes "find_existing_path extract_id listdir url (download_dir s) = None"
    and "\<not> cancelled s"
    and "\<not> mkdir_raises f"
    and "events f = evs_a @ Hook d # evs_b"
    and "Cancel_pressed \<in> set evs_a"
    and "after_queue s = []"
    and "map_of (tree s) item_id = Some r"
  shows "(\<exists>r'. map_of (tree (mainloop (download_item extract_id listdir f item_id url a s))) item_id
             = Some r'
           \<and> col_progress r' = 0
           \<and> col_status r' \<notin> {''queued'', ''downloading'', ''postprocessing'', ''done''})
       \<and> map_of (item_progress (mainloop (download_item extract_id listdir f item_id url a s)))
             item_id = Some 0
       \<and> item_paths (mainloop (download_item extract_id listdir f item_id url a s))
           = item_paths s
       \<and> cancelled (mainloop (download_item extract_id listdir f item_id url a s))"
proof -
  let ?fin = "mainloop (download_item extract_id listdir f item_id url a s)"
  let ?s0 = "s\<lparr>engine_calls := engine_calls s @ [(url, a)]\<rparr>"
  let ?e = "extract_info item_id (events f) (block_result f) ?s0"
  have e1: "fst ?e = Inl (DownloadCancelled ''User cancelled'')" "cancelled (snd ?e)"
    using extract_info_cancelled [of ?s0 evs_a item_id d evs_b "block_result f"] assms(4,5)
    by simp_all
  from extract_info_frame [of item_id "events f" "block_result f" ?s0]
  obtain cbs where fr: "tree (snd ?e) = tree s" "item_progress (snd ?e) = item_progress s"
      "item_paths (snd ?e) = item_paths s"
      "after_queue (snd ?e) = cbs" "list_all (hook_update item_id) cbs"
    using assms(6) by auto
  have d: "download_item extract_id listdir f item_id url a s
         = update_row item_id None (Some 0) (Some ''error: User cancelled'') (snd ?e)"
    by (simp add: download_item_fetch [OF assms(1,2,3) refl] e1(1))
  have t: "map_of (tree (snd ?e)) item_id \<noteq> None" using fr(1) assms(7) by simp
  note w = mainloop_worker [OF fr(4) fr(5) t, of 0 "''error: User cancelled''"]
  from w(3) obtain r' where r': "map_of (tree ?fin) item_id = Some r'" "col_progress r' = 0"
      "col_status r' = ''error: User cancelled''"
    by (auto simp: d)
  have 1: "\<exists>r'. map_of (tree ?fin) item_id = Some r' \<and> col_progress r' = 0
           \<and> col_status r' \<notin> {''queued'', ''downloading'', ''postprocessing'', ''done''}"
    using r' by simp
  have 2: "map_of (item_progress ?fin) item_id = Some 0"
    using w(1) by (simp add: d update_conv')
  have 3: "item_paths ?fin = item_paths s"
    using w(4) fr(3) by (simp add: d)
  have 4: "cancelled ?fin"
    using w(6) e1(2) by (simp add: d)
  show ?thesis using 1 2 3 4 by blast
qed

text \<open>The example fetch with Cancel pressed after the report of 40 percent.\<close>

theorem cancelled_fetch_resets_progress_witness:
  "find_existing_path demo_extract_id empty_dir demo_url (download_dir demo_queued) = None
   \<and> \<not> cancelled demo_queued
   \<and> \<not> mkdir_raises cancelled_fetch
   \<and> events cancelled_fetch = [Hook (downloading 40 100), Cancel_pressed] @ Hook (downloading 50 100) # []
   \<and> Cancel_pressed \<in> set [Hook (downloading 40 100), Cancel_pressed]
   \<and> after_queue demo_queued = []
   \<and> map_of (tree demo_queued) 1 = Some (pending_row ''Song'' demo_url\<lparr>col_status := ''queued''\<rparr>)
   \<and> map_of (item_progress (mainloop (download_item demo_extract_id empty_dir cancelled_fetch 1 demo_url
          ''downloads/downloaded.txt'' demo_queued))) 1 = Some 0
   \<and> item_paths (mainloop (download_item demo_extract_id empty_dir cancelled_fetch 1 demo_url
          ''downloads/downloaded.txt'' demo_queued)) = [(1, None)]
   \<and> cancelled (mainloop (download_item demo_extract_id empty_dir cancelled_fetch 1 demo_url
          ''downloads/downloaded.txt'' demo_queued))"
  using cancelled_fetch_resets_progress [of demo_extract_id empty_dir demo_url demo_queued cancelled_fetch
      "[Hook (downloading 40 100), Cancel_pressed]" "downloading 50 100" "[]" 1
      "pending_row ''Song'' demo_url\<lparr>col_status := ''queued''\<rparr>" "''downloads/downloaded.txt''"]
  by (simp add: locate_empty) (simp add: demo_queued_rows cancelled_fetch_def)

text \<open>
  The claim as it is written fails on that run. After the first report the row shows
  \<^verbatim>\<open>downloading\<close> at 40; after Cancel and the next call of the hook, the worker's
  \<^verbatim>\<open>except Exception\<close> writes \<^verbatim>\<open>error: User cancelled\<close> with progress 0: the state is
  not \<^verbatim>\<open>cancelled\<close> and the progress is not 40.
\<close>

theorem cancelled_fetch_counterexample:
  "events cancelled_fetch = [Hook (downloading 40 100), Cancel_pressed, Hook (downloading 50 100)]
   \<and> map_of (tree (mainloop (snd (extract_info 1 [Hook (downloading 40 100)]
          (block_result cancelled_fetch) demo_queued)))) 1
       = Some (pending_row ''Song'' demo_url\<lparr>col_progress := 40, col_status := ''downloading''\<rparr>)
   \<and> map_of (tree (mainloop (download_item demo_extract_id empty_dir cancelled_fetch 1 demo_url
          ''downloads/downloaded.txt'' demo_queued))) 1
       = Some (pending_row ''Song'' demo_url\<lparr>col_progress := 0, col_status := ''error: User cancelled''\<rparr>)"
  by (simp add: demo_queued_rows cancelled_fetch_def download_item_def locate_empty progress_hook_def
      downloading_def hook_total_def Let_def fmt_40 update_row_def cancel_downloads_def mainloop_def
      update_def update_global_progress_def pending_row_def)

subsection \<open>The flag at a new run and at a retry\<close>

lemma start_clears_flag: "tree s \<noteq> [] \<Longrightarrow> \<not> cancelled (fst (start_downloads s))"
  by (simp add: start_downloads_def Let_def)

lemma retry_keeps_flag:
  "retry_item item_id s = Some (s', args) \<Longrightarrow> cancelled s' = cancelled s"
  by (auto simp: retry_item_def update_row_def split: option.splits)

text \<open>
  Claim C2. \<^verbatim>\<open>start_downloads\<close> clears the flag, \<^verbatim>\<open>_retry_item\<close> does not. After Cancel,
  a retry of the example item, with a directory that holds no output and an engine that
  would fetch it, leaves the flag set, ends with the row at \<^verbatim>\<open>cancelled\<close> and never calls
  the engine; a new run from the same state starts with the flag cleared.
\<close>

theorem retry_after_cancel_is_cancelled:
  "cancelled (cancel_downloads demo_queued)
   \<and> map_option (\<lambda>s. (cancelled s, map_of (tree s) 1, engine_calls s))
        (retry_run demo_extract_id empty_dir good_fetch 1 (cancel_downloads demo_queued))
       = Some (True, Some (pending_row ''Song'' demo_url\<lparr>col_status := ''cancelled''\<rparr>), [])
   \<and> \<not> cancelled (fst (start_downloads (cancel_downloads demo_queued)))"
  by (simp add: demo_queued_rows cancel_downloads_def retry_run_def retry_item_def update_row_def
      mainloop_def update_def update_global_progress_def Let_def download_item_def locate_empty
      start_downloads_def pending_row_def)

subsection \<open>The invariant of the reachable states\<close>

lemma inv_row:
  "registry_inv s \<Longrightarrow> map_of (tree s) i = Some r \<Longrightarrow> done_or_skipped (col_status r)
   \<Longrightarrow> has_path s i"
  unfolding registry_inv_def path_before_status_def by blast

lemma inv_queued:
  "registry_inv s \<Longrightarrow> Update i t p (Some st) \<in> set (after_queue s) \<Longrightarrow> done_or_skipped st
   \<Longrightarrow> map_of (tree s) i = Some r \<Longrightarrow> has_path s i"
  unfolding registry_inv_def path_before_status_def by blast

lemma inv_row_id: "registry_inv s \<Longrightarrow> map_of (tree s) i = Some r \<Longrightarrow> i \<le> tree_counter s"
  unfolding registry_inv_def ids_issued_def by blast

lemma inv_queued_id:
  "registry_inv s \<Longrightarrow> Update i t p st \<in> set (after_queue s) \<Longrightarrow> i \<le> tree_counter s"
  unfolding registry_inv_def ids_issued_def by blast

lemma inv_same_fields:
  "registry_inv s \<Longrightarrow> tree s' = tree s \<Longrightarrow> item_paths s' = item_paths s
   \<Longrightarrow> after_queue s' = after_queue s \<Longrightarrow> tree_counter s' = tree_counter s
   \<Longrightarrow> registry_inv s'"
  by (simp add: registry_inv_def path_before_status_def ids_issued_def has_path_def)

lemma inv_enqueue:
  assumes "registry_inv s" and "list_all (harmless s) cbs"
  shows "registry_inv (s\<lparr>after_queue := after_queue s @ cbs\<rparr>)"
  unfolding registry_inv_def path_before_status_def ids_issued_def
proof (intro conjI allI impI)
  fix i r assume "map_of (tree (s\<lparr>after_queue := after_queue s @ cbs\<rparr>)) i = Some r"
    "done_or_skipped (col_status r)"
  with assms(1) show "has_path (s\<lparr>after_queue := after_queue s @ cbs\<rparr>) i"
    by (simp add: registry_inv_def path_before_status_def has_path_def)
next
  fix i t p st
  assume a: "Update i t p (Some st) \<in> set (after_queue (s\<lparr>after_queue := after_queue s @ cbs\<rparr>))"
    "done_or_skipped st" "map_of (tree (s\<lparr>after_queue := after_queue s @ cbs\<rparr>)) i \<noteq> None"
  then consider "Update i t p (Some st) \<in> set (after_queue s)" | "Update i t p (Some st) \<in> set cbs"
    by auto
  then have "has_path s i"
  proof cases
    case 1
    with assms(1) a show ?thesis
      using inv_queued by fastforce
  next
    case 2
    with assms(2) have "harmless s (Update i t p (Some st))" by (simp add: list_all_iff)
    with a show ?thesis by (simp add: harmless_def)
  qed
  then show "has_path (s\<lparr>after_queue := after_queue s @ cbs\<rparr>) i"
    by (simp add: has_path_def)
next
  fix i r assume "map_of (tree (s\<lparr>after_queue := after_queue s @ cbs\<rparr>)) i = Some r"
  with assms(1) show "i \<le> tree_counter (s\<lparr>after_queue := after_queue s @ cbs\<rparr>)"
    by (simp add: registry_inv_def ids_issued_def)
next
  fix i t p st
  assume a: "Update i t p st \<in> set (after_queue (s\<lparr>after_queue := after_queue s @ cbs\<rparr>))"
  then consider "Update i t p st \<in> set (after_queue s)" | "Update i t p st \<in> set cbs"
    by auto
  then have "i \<le> tree_counter s"
  proof cases
    case 1
    with assms(1) show ?thesis by (rule inv_queued_id)
  next
    case 2
    with assms(2) have "harmless s (Update i t p st)" by (simp add: list_all_iff)
    then show ?thesis by (simp add: harmless_def)
  qed
  then show "i \<le> tree_counter (s\<lparr>after_queue := after_queue s @ cbs\<rparr>)" by simp
qed

lemma inv_update_row:
  assumes "registry_inv s" and "item_id \<le> tree_counter s"
    and "\<And>st'. st = Some st' \<Longrightarrow> done_or_skipped st' \<Longrightarrow> has_path s item_id"
  shows "registry_inv (update_row item_id t p st s)"
proof -
  have "harmless s (Update item_id t p st)"
    using assms(2,3) by (auto simp: harmless_def)
  then show ?thesis
    using inv_enqueue [OF assms(1), of "[Update item_id t p st]"] by (simp add: update_row_def)
qed

lemma has_path_set_item_path:
  "has_path (set_item_path item_id p s) i = (i = item_id \<or> has_path s i)"
  by (auto simp: has_path_def set_item_path_def update_conv')

lemma inv_set_item_path:
  "registry_inv s \<Longrightarrow> registry_inv (set_item_path item_id p s)"
  unfolding registry_inv_def path_before_status_def ids_issued_def
  by (simp add: has_path_set_item_path) (simp add: set_item_path_def)

lemma inv_delete:
  assumes "registry_inv s"
  shows "registry_inv (s\<lparr>tree := AList.delete j (tree s),
            item_paths := AList.delete j (item_paths s),
            item_progress := AList.delete j (item_progress s)\<rparr>)"
  using assms unfolding registry_inv_def path_before_status_def ids_issued_def has_path_def
  by (auto simp: delete_conv')

lemma inv_add_row:
  assumes "registry_inv s" and "\<not> done_or_skipped status"
  shows "registry_inv (snd (add_row title url progress status s))"
  unfolding registry_inv_def path_before_status_def ids_issued_def
proof (intro conjI allI impI)
  let ?s' = "snd (add_row title url progress status s)"
  have tr: "\<And>i. map_of (tree ?s') i = (if map_of (tree s) i = None then 
        (if i = Suc (tree_counter s) then Some \<lparr>col_title = title, col_url = url,
             col_progress = progress, col_status = status,
             col_show = ''Show'', col_retry = ''Retry''\<rparr> else None) else map_of (tree s) i)"
    by (auto simp: add_row_def Let_def map_add_def split: option.splits)
  have old: "\<And>i. i \<le> tree_counter s \<Longrightarrow> has_path ?s' i = has_path s i"
    by (simp add: add_row_def Let_def has_path_def update_conv')
  have q: "after_queue ?s' = after_queue s" "tree_counter ?s' = Suc (tree_counter s)"
    by (simp_all add: add_row_def Let_def)
  note inv = assms(1)
  { fix i r assume a: "map_of (tree ?s') i = Some r" "done_or_skipped (col_status r)"
    show "has_path ?s' i"
    proof (cases "map_of (tree s) i")
      case None
      with a assms(2) show ?thesis by (auto simp: tr split: if_splits)
    next
      case (Some r0)
      with a have "map_of (tree s) i = Some r" by (simp add: tr)
      with a(2) inv have "has_path s i" "i \<le> tree_counter s"
        using inv_row inv_row_id by blast+
      then show ?thesis by (simp add: old)
    qed }
  { fix i t p st
    assume a: "Update i t p (Some st) \<in> set (after_queue ?s')" "done_or_skipped st"
      "map_of (tree ?s') i \<noteq> None"
    then have le: "i \<le> tree_counter s" using inv inv_queued_id by (simp add: q)
    then obtain r0 where "map_of (tree s) i = Some r0"
      using a(3) by (auto simp: tr split: if_splits)
    with a inv have "has_path s i" using inv_queued by (simp add: q)
    then show "has_path ?s' i" using le by (simp add: old) }
  { fix i r assume "map_of (tree ?s') i = Some r"
    then have "i = Suc (tree_counter s) \<or> (\<exists>r0. map_of (tree s) i = Some r0)"
      by (auto simp: tr split: if_splits)
    with inv show "i \<le> tree_counter ?s'" using inv_row_id by (fastforce simp: q) }
  { fix i t p st assume "Update i t p st \<in> set (after_queue ?s')"
    with inv have "i \<le> tree_counter s" using inv_queued_id by (simp add: q)
    then show "i \<le> tree_counter ?s'" by (simp add: q) }
qed

lemma inv_dequeue:
  assumes "registry_inv s" and "after_queue s = cb # q"
  shows "registry_inv (s\<lparr>after_queue := q\<rparr>)"
  using assms unfolding registry_inv_def path_before_status_def ids_issued_def has_path_def
  by simp

lemma update_fields:
  assumes "map_of (tree s) i = Some r"
  shows "item_paths (update i t p st s) = item_paths s"
    and "after_queue (update i t p st s) = after_queue s"
    and "tree_counter (update i t p st s) = tree_counter s"
    and "\<exists>r'. map_of (tree (update i t p st s)) = (map_of (tree s))(i \<mapsto> r')
           \<and> col_status r' = (case st of None \<Rightarrow> col_status r | Some st' \<Rightarrow> st')"
  using assms
  by (auto simp: update_def Let_def update_global_progress_def update_conv' split: option.splits)

lemma inv_update:
  assumes inv: "registry_inv s"
    and head: "\<And>st' r. st = Some st' \<Longrightarrow> done_or_skipped st' \<Longrightarrow> map_of (tree s) i = Some r
                 \<Longrightarrow> has_path s i"
  shows "registry_inv (update i t p st s)"
proof (cases "map_of (tree s) i")
  case None
  then show ?thesis using inv by (simp add: update_def)
next
  case (Some r)
  let ?s' = "update i t p st s"
  note f = update_fields [OF Some, of t p st]
  from f(4) obtain r' where tr: "map_of (tree ?s') = (map_of (tree s))(i \<mapsto> r')"
    and st: "col_status r' = (case st of None \<Rightarrow> col_status r | Some st' \<Rightarrow> st')"
    by blast
  have hp: "\<And>j. has_path ?s' j = has_path s j"
    by (simp add: has_path_def f(1))
  have own: "done_or_skipped (col_status r') \<Longrightarrow> has_path s i"
  proof (cases st)
    case None
    assume "done_or_skipped (col_status r')"
    with None st Some inv show ?thesis using inv_row by fastforce
  next
    case (Some st')
    assume "done_or_skipped (col_status r')"
    with Some st head \<open>map_of (tree s) i = Some r\<close> show ?thesis by simp
  qed
  show ?thesis
    unfolding registry_inv_def path_before_status_def ids_issued_def
  proof (intro conjI allI impI)
    fix j rj assume a: "map_of (tree ?s') j = Some rj" "done_or_skipped (col_status rj)"
    show "has_path ?s' j"
    proof (cases "j = i")
      case True
      with a tr own show ?thesis by (simp add: hp)
    next
      case False
      with a tr inv show ?thesis using inv_row by (simp add: hp)
    qed
  next
    fix j t' p' st'
    assume a: "Update j t' p' (Some st') \<in> set (after_queue ?s')" "done_or_skipped st'"
      "map_of (tree ?s') j \<noteq> None"
    then obtain rj where "map_of (tree s) j = Some rj"
      using tr Some by (cases "j = i") auto
    with a inv show "has_path ?s' j"
      using inv_queued by (simp add: hp f(2))
  next
    fix j rj assume "map_of (tree ?s') j = Some rj"
    then obtain r0 where "map_of (tree s) j = Some r0"
      using tr Some by (cases "j = i") auto
    with inv show "j \<le> tree_counter ?s'" using inv_row_id by (simp add: f(3))
  next
    fix j t' p' st' assume "Update j t' p' st' \<in> set (after_queue ?s')"
    with inv show "j \<le> tree_counter ?s'" using inv_queued_id by (simp add: f(2,3))
  qed
qed

lemma inv_tick:
  assumes inv: "registry_inv s" and q: "after_queue s = cb # q"
  shows "registry_inv (run_callback cb (s\<lparr>after_queue := q\<rparr>))"
proof -
  let ?s0 = "s\<lparr>after_queue := q\<rparr>"
  have inv0: "registry_inv ?s0" using inv q by (rule inv_dequeue)
  show ?thesis
  proof (cases cb)
    case (Update i t p st)
    have "\<And>st' r. st = Some st' \<Longrightarrow> done_or_skipped st' \<Longrightarrow> map_of (tree ?s0) i = Some r
                 \<Longrightarrow> has_path ?s0 i"
    proof -
      fix st' r assume "st = Some st'" "done_or_skipped st'" "map_of (tree ?s0) i = Some r"
      then have "has_path s i"
        using inv_queued [OF inv, of i t p st' r] q Update by simp
      then show "has_path ?s0 i" by (simp add: has_path_def)
    qed
    from inv_update [OF inv0 this] show ?thesis by (simp add: Update)
  next
    case (Remove_placeholder i)
    show ?thesis using inv_delete [OF inv0, of i] inv0
      by (simp add: Remove_placeholder split: option.splits)
  next
    case (Add_row t u)
    show ?thesis using inv_add_row [OF inv0, of "''pending''" t u 0]
      by (simp add: Add_row done_or_skipped_def)
  next
    case Btn_normal
    show ?thesis using inv_same_fields [OF inv0] by (simp add: Btn_normal)
  qed
qed

lemma harmless_entry_rows: "list_all (harmless s) (entry_rows es)"
  by (induction es) (auto simp: harmless_def Let_def split: option.splits)

lemma inv_process_url:
  assumes "registry_inv s" and "item_id \<le> tree_counter s"
  shows "registry_inv (process_url item_id url answer s)"
proof -
  have u: "\<And>t. registry_inv (update_row item_id t None None s)"
    by (rule inv_update_row [OF assms]) simp
  have "list_all (harmless s) (Remove_placeholder item_id # entry_rows es)" for es
    by (simp add: harmless_entry_rows) (simp add: harmless_def)
  from inv_enqueue [OF assms(1) this]
  have p: "\<And>es. registry_inv (s\<lparr>after_queue := after_queue s @ Remove_placeholder item_id # entry_rows es\<rparr>)" .
  show ?thesis
    by (simp add: process_url_def u p split: sum.splits option.splits)
qed

lemma inv_remove_selected:
  "registry_inv s \<Longrightarrow> registry_inv (remove_selected selection s)"
  unfolding remove_selected_def
proof (induction selection arbitrary: s)
  case Nil
  then show ?case by simp
next
  case (Cons j selection)
  have "registry_inv (s\<lparr>item_paths := AList.delete j (item_paths s),
            item_progress := AList.delete j (item_progress s),
            tree := AList.delete j (tree s)\<rparr>)"
    by (rule inv_same_fields [OF inv_delete [OF Cons.prems, of j]]) simp_all
  from Cons.IH [OF this] show ?case by simp
qed

lemma inv_queue_all:
  "registry_inv s \<Longrightarrow> \<forall>i\<in>set ids. i \<le> tree_counter s
   \<Longrightarrow> registry_inv (fold (\<lambda>item_id. update_row item_id None (Some 0) (Some ''queued'')) ids s)"
proof (induction ids arbitrary: s)
  case Nil
  then show ?case by simp
next
  case (Cons i ids)
  have "registry_inv (update_row i None (Some 0) (Some ''queued'') s)"
    using Cons.prems by (intro inv_update_row) (auto simp: done_or_skipped_def)
  moreover have "\<forall>j\<in>set ids. j \<le> tree_counter (update_row i None (Some 0) (Some ''queued'') s)"
    using Cons.prems by (simp add: update_row_def)
  ultimately show ?case using Cons.IH by simp
qed

lemma fold_update_row_fields:
  "tree (fold (\<lambda>i. update_row i t p st) ids s) = tree s
   \<and> item_paths (fold (\<lambda>i. update_row i t p st) ids s) = item_paths s
   \<and> tree_counter (fold (\<lambda>i. update_row i t p st) ids s) = tree_counter s"
  by (induction ids arbitrary: s) (simp_all add: update_row_def)

lemma inv_start_downloads:
  assumes "registry_inv s"
  shows "registry_inv (fst (start_downloads s))"
proof -
  have "\<forall>i\<in>set (map fst (tree s)). i \<le> tree_counter s"
  proof
    fix i assume "i \<in> set (map fst (tree s))"
    then obtain r where "map_of (tree s) i = Some r"
      by (metis map_of_eq_None_iff not_Some_eq set_map)
    with assms show "i \<le> tree_counter s" by (rule inv_row_id)
  qed
  from inv_queue_all [OF assms this] show ?thesis
    by (auto simp: start_downloads_def Let_def elim: inv_same_fields)
qed

lemma inv_cancel: "registry_inv s \<Longrightarrow> registry_inv (cancel_downloads s)"
  by (erule inv_same_fields) (simp_all add: cancel_downloads_def)

lemma inv_run_downloads_begin: "registry_inv s \<Longrightarrow> registry_inv (run_downloads_begin s)"
  by (erule inv_same_fields) (simp_all add: run_downloads_begin_def)

lemma inv_run_downloads_end:
  assumes "registry_inv s"
  shows "registry_inv (run_downloads_end s)"
proof -
  have "list_all (harmless s) [Btn_normal]"
    by (simp add: harmless_def)
  from inv_enqueue [OF assms this] show ?thesis
    unfolding run_downloads_end_def by (rule inv_same_fields) simp_all
qed

lemma inv_done:
  assumes "registry_inv s" and "item_id \<le> tree_counter s"
  shows "registry_inv (update_row item_id None p (Some st) (set_item_path item_id path s))"
proof (rule inv_update_row)
  show "registry_inv (set_item_path item_id path s)" using assms(1) by (rule inv_set_item_path)
  show "item_id \<le> tree_counter (set_item_path item_id path s)"
    using assms(2) by (simp add: set_item_path_def)
  show "\<And>st'. Some st = Some st' \<Longrightarrow> done_or_skipped st' \<Longrightarrow> has_path (set_item_path item_id path s) item_id"
    by (simp add: has_path_set_item_path)
qed

lemma harmless_hook_update:
  "item_id \<le> tree_counter s \<Longrightarrow> hook_update item_id cb \<Longrightarrow> harmless s cb"
  by (auto simp: hook_update_def harmless_def done_or_skipped_def)

lemma inv_extract_info:
  assumes "registry_inv s" and "item_id \<le> tree_counter s"
  shows "registry_inv (snd (extract_info item_id evs res s))
       \<and> tree_counter (snd (extract_info item_id evs res s)) = tree_counter s"
proof -
  let ?s' = "snd (extract_info item_id evs res s)"
  from extract_info_frame [of item_id evs res s] obtain cbs where
    f: "tree ?s' = tree s" "item_paths ?s' = item_paths s" "tree_counter ?s' = tree_counter s"
       "after_queue ?s' = after_queue s @ cbs" "list_all (hook_update item_id) cbs"
    by auto
  have "list_all (harmless s) cbs"
    using f(5) harmless_hook_update [OF assms(2)] by (simp add: list_all_iff)
  from inv_enqueue [OF assms(1) this]
  have "registry_inv (s\<lparr>after_queue := after_queue s @ cbs\<rparr>)" .
  then have "registry_inv ?s'"
    by (rule inv_same_fields) (simp_all add: f)
  with f(3) show ?thesis by simp
qed

lemma inv_download_item:
  assumes inv: "registry_inv s" and le: "item_id \<le> tree_counter s"
  shows "registry_inv (download_item extract_id listdir f item_id url archive_file s)"
proof (cases "find_existing_path extract_id listdir url (download_dir s)")
  case (Some existing_path)
  then show ?thesis using inv_done [OF inv le] by (simp add: download_item_def)
next
  case None
  let ?s0 = "s\<lparr>engine_calls := engine_calls s @ [(url, archive_file)]\<rparr>"
  let ?e = "extract_info item_id (events f) (block_result f) ?s0"
  have inv0: "registry_inv ?s0" using inv by (rule inv_same_fields) simp_all
  have le0: "item_id \<le> tree_counter ?s0" using le by simp
  from inv_extract_info [OF inv0 le0]
  have e: "registry_inv (snd ?e)" "item_id \<le> tree_counter (snd ?e)"
    using le by simp_all
  have c: "registry_inv (update_row item_id None (Some 0) (Some ''cancelled'') s)"
    using inv le by (intro inv_update_row) (auto simp: done_or_skipped_def)
  have er: "\<And>exc. registry_inv (update_row item_id None (Some 0) (Some (''error: '' @ exc_str exc)) (snd ?e))"
    using e by (intro inv_update_row) (auto simp: done_or_skipped_def)
  have dn: "\<And>p. registry_inv (update_row item_id None (Some 100) (Some ''done'') (set_item_path item_id p (snd ?e)))"
    using inv_done [OF e] by simp
  show ?thesis
    using None inv c er dn
    by (cases ?e) (auto simp: download_item_def split: sum.splits)
qed

lemma inv_retry:
  assumes "registry_inv s" and "retry_item item_id s = Some (s', args)"
  shows "registry_inv s'"
proof -
  from assms(2) obtain r where r: "map_of (tree s) item_id = Some r"
    and s': "s' = update_row item_id None (Some 0) (Some ''queued'') s"
    by (auto simp: retry_item_def split: option.splits)
  have "item_id \<le> tree_counter s" using assms(1) r by (rule inv_row_id)
  with assms(1) show ?thesis
    unfolding s' by (intro inv_update_row) (auto simp: done_or_skipped_def)
qed

lemma inv_show_in_folder:
  "registry_inv s \<Longrightarrow> registry_inv (show_in_folder extract_id listdir exists item_id s)"
  by (simp add: show_in_folder_def Let_def inv_set_item_path split: option.splits)

lemma inv_init: "registry_inv init_app"
  by (simp add: registry_inv_def path_before_status_def ids_issued_def init_app_def)

lemma reachable_inv: "reachable s \<Longrightarrow> registry_inv s"
proof (induction rule: reachable.induct)
  case r_init
  show ?case by (rule inv_init)
next
  case (r_add s url)
  then show ?case by (intro inv_add_row) (simp_all add: done_or_skipped_def)
next
  case (r_resolve s item_id url answer)
  then show ?case by (intro inv_process_url)
next
  case (r_remove s selection)
  then show ?case by (intro inv_remove_selected)
next
  case (r_folder s chosen)
  then show ?case by (elim inv_same_fields) simp_all
next
  case (r_start s)
  then show ?case by (intro inv_start_downloads)
next
  case (r_cancel s)
  then show ?case by (intro inv_cancel)
next
  case (r_run_begin s)
  then show ?case by (intro inv_run_downloads_begin)
next
  case (r_run_end s)
  then show ?case by (intro inv_run_downloads_end)
next
  case (r_worker s item_id extract_id listdir f url archive_file)
  then show ?case by (intro inv_download_item)
next
  case (r_retry s item_id s' args)
  then show ?case using inv_retry by blast
next
  case (r_show s item_id extract_id listdir exists)
  then show ?case by (intro inv_show_in_folder)
next
  case (r_tick s cb q)
  then show ?case by (intro inv_tick)
qed

lemma demo_skipped_reachable: "reachable demo_skipped"
proof -
  let ?x = "download_item demo_extract_id mp3_dir good_fetch 1 demo_url ''downloads/downloaded.txt'' demo_added"
  have a: "reachable demo_added"
    unfolding demo_added_def by (rule r_add [OF r_init])
  have "1 \<le> tree_counter demo_added"
    by (simp add: demo_added_def add_row_def)
  from r_worker [OF a this] have x: "reachable ?x" .
  have q: "after_queue ?x = [Update 1 None (Some 100) (Some ''skipped (exists)'')]"
    by (simp add: download_item_def locate_mp3 update_row_def set_item_path_def demo_added_def
        add_row_def init_app_def)
  from r_tick [OF x q] show ?thesis
    unfolding demo_skipped_def mainloop_def q by simp
qed

text \<open>
  Claim C9. In every state the application reaches, by whatever sequence of user actions,
  threads and runs of queued functions, a row that shows \<^verbatim>\<open>done\<close> or
  \<^verbatim>\<open>skipped (exists)\<close> has its output path recorded, and so has every row for which an
  update to one of these is still queued: the path is set before the status is.
\<close>

theorem done_or_skipped_has_path: "reachable s \<Longrightarrow> path_before_status s"
  using reachable_inv [of s] by (simp add: registry_inv_def)

text \<open>The example item after the locator found its output and the main loop ran.\<close>

theorem done_or_skipped_has_path_witness:
  "reachable demo_skipped
   \<and> map_option col_status (map_of (tree demo_skipped) 1) = Some ''skipped (exists)''
   \<and> map_of (item_paths demo_skipped) 1 = Some (Some ''downloads/dQw4w9WgXcQ - Song.mp3'')
   \<and> path_before_status demo_skipped"
  using done_or_skipped_has_path [OF demo_skipped_reachable]
  by (simp add: demo_skipped_reachable)
     (simp add: demo_skipped_def demo_added_def download_item_def locate_mp3 update_row_def
        set_item_path_def add_row_def init_app_def mainloop_def update_def Let_def
        update_global_progress_def OUTPUT_DIR_def)

subsection \<open>The number of concurrent fetches\<close>

text \<open>
  Claim C5, as the code has it. Each executor, that is each batch run, has at most
  \<open>MAX_WORKERS\<close> calls of \<^verbatim>\<open>_download_item\<close> running at any time, whatever the size of
  the batch. The retry threads are not counted: they are started outside every executor.
\<close>

theorem executor_bounded: "scheduled t \<Longrightarrow> \<forall>e\<in>set (executors t). length (running e) \<le> MAX_WORKERS"
proof (induction rule: scheduled.induct)
  case t_init
  show ?case by simp
next
  case (t_run t item_ids)
  then show ?case by simp
next
  case (t_take t k item_id rest)
  show ?case
  proof
    fix e assume "e \<in> set (executors (t\<lparr>executors := (executors t)
           [k := \<lparr>waiting = rest, running = running (executors t ! k) @ [item_id]\<rparr>]\<rparr>))"
    then have "e = \<lparr>waiting = rest, running = running (executors t ! k) @ [item_id]\<rparr> \<or> e \<in> set (executors t)"
      using set_update_subset_insert [of "executors t" k] by auto
    with t_take show "length (running e) \<le> MAX_WORKERS" by auto
  qed
next
  case (t_return t k item_id)
  show ?case
  proof
    fix e assume "e \<in> set (executors (t\<lparr>executors := (executors t)
           [k := (executors t ! k)\<lparr>running := remove1 item_id (running (executors t ! k))\<rparr>]\<rparr>))"
    then have "e = (executors t ! k)\<lparr>running := remove1 item_id (running (executors t ! k))\<rparr> \<or> e \<in> set (executors t)"
      using set_update_subset_insert [of "executors t" k] by auto
    moreover have "length (running (executors t ! k)) \<le> MAX_WORKERS"
      using t_return by simp
    ultimately show "length (running e) \<le> MAX_WORKERS"
      using t_return.IH by (auto simp: length_remove1)
  qed
next
  case (t_retry t item_id)
  then show ?case by simp
next
  case (t_retry_return t item_id)
  then show ?case by simp
qed

lemma demo_threads_scheduled: "scheduled demo_threads"
proof -
  have 0: "scheduled \<lparr>executors = [\<lparr>waiting = [1, 2, 3, 4, 5], running = []\<rparr>], retry_threads = []\<rparr>"
    using t_run [OF t_init, of "[1, 2, 3, 4, 5]"] by simp
  have 1: "scheduled \<lparr>executors = [\<lparr>waiting = [2, 3, 4, 5], running = [1]\<rparr>], retry_threads = []\<rparr>"
    using t_take [OF 0, of 0 1 "[2, 3, 4, 5]"] by (simp add: MAX_WORKERS_def)
  have 2: "scheduled \<lparr>executors = [\<lparr>waiting = [3, 4, 5], running = [1, 2]\<rparr>], retry_threads = []\<rparr>"
    using t_take [OF 1, of 0 2 "[3, 4, 5]"] by (simp add: MAX_WORKERS_def)
  have 3: "scheduled \<lparr>executors = [\<lparr>waiting = [4, 5], running = [1, 2, 3]\<rparr>], retry_threads = []\<rparr>"
    using t_take [OF 2, of 0 3 "[4, 5]"] by (simp add: MAX_WORKERS_def)
  have 4: "scheduled \<lparr>executors = [\<lparr>waiting = [5], running = [1, 2, 3, 4]\<rparr>], retry_threads = []\<rparr>"
    using t_take [OF 3, of 0 4 "[5]"] by (simp add: MAX_WORKERS_def)
  show ?thesis
    using t_retry [OF 4, of 5] by (simp add: demo_threads_def)
qed

text \<open>The batch of five with four calls running.\<close>

theorem executor_bounded_witness:
  "scheduled demo_threads \<and> map (\<lambda>e. length (running e)) (executors demo_threads) = [4]
   \<and> length (running (hd (executors demo_threads))) \<le> MAX_WORKERS"
  using executor_bounded [OF demo_threads_scheduled]
  by (simp add: demo_threads_scheduled) (simp add: demo_threads_def)

text \<open>
  The claim as it is written bounds all fetches by \<open>MAX_WORKERS\<close>, retries included.
  With four items of a batch being fetched and the fifth waiting, a click on Retry in the
  fifth row starts a thread for it: five different items are being fetched.
\<close>

theorem retry_exceeds_workers_counterexample:
  "scheduled demo_threads \<and> in_flight demo_threads = [1, 2, 3, 4, 5]
   \<and> distinct (in_flight demo_threads)
   \<and> MAX_WORKERS < length (in_flight demo_threads)"
  by (simp add: demo_threads_scheduled) (simp add: demo_threads_def in_flight_def MAX_WORKERS_def)

end
